theory Spec2Isabelle
  imports Complex_Main
begin

section \<open>SketchRNN data utilities: data model\<close>

text \<open>
  The arrays of \<^verbatim>\<open>magenta/models/sketch_rnn/utils.py\<close> are modelled as lists of rows.
  A stroke-3 row is \<open>(dx, dy, pen_lift)\<close>, a stroke-5 row is
  \<open>(dx, dy, p_down, p_up, p_end)\<close>. Array entries are reals: arithmetic is exact, and
  rounding of the float32 and float64 arrays is not modelled.
\<close>

record pt3 =
  dx :: real
  dy :: real
  pen_lift :: real

record pt5 =
  x5 :: real
  y5 :: real
  p_down :: real
  p_up :: real
  p_end :: real

datatype error = AssertionError | IndexError | ValueError | ZeroDivisionError

text \<open>One row of \<^verbatim>\<open>np.zeros((n, 5))\<close>, and the array itself.\<close>

definition zero5 :: pt5 where
  "zero5 = \<lparr>x5 = 0, y5 = 0, p_down = 0, p_up = 0, p_end = 0\<rparr>"

definition zeros5 :: "nat \<Rightarrow> pt5 list" where
  "zeros5 n = replicate n zero5"

text \<open>
  Slice assignments. \<open>assign_prefix l f src rows\<close> is \<^verbatim>\<open>rows[0:l, cols] = src[:, cols']\<close>,
  \<open>map_prefix l g rows\<close> is an update of \<^verbatim>\<open>rows[0:l, col]\<close> from the rows themselves,
  \<open>map_from l g rows\<close> is \<^verbatim>\<open>rows[l:, col] = v\<close>.
\<close>

definition assign_prefix :: "nat \<Rightarrow> ('a \<Rightarrow> 'b \<Rightarrow> 'b) \<Rightarrow> 'a list \<Rightarrow> 'b list \<Rightarrow> 'b list" where
  "assign_prefix l f src rows = map2 f (take l src) (take l rows) @ drop l rows"

definition map_prefix :: "nat \<Rightarrow> ('b \<Rightarrow> 'b) \<Rightarrow> 'b list \<Rightarrow> 'b list" where
  "map_prefix l g rows = map g (take l rows) @ drop l rows"

definition map_from :: "nat \<Rightarrow> ('b \<Rightarrow> 'b) \<Rightarrow> 'b list \<Rightarrow> 'b list" where
  "map_from l g rows = take l rows @ map g (drop l rows)"

section \<open>Spherical interpolation\<close>

text \<open>
  \<^verbatim>\<open>slerp\<close> works on numpy float64 arrays. The float64 operations it calls are
  parameters of the model, a record of functions on a type \<open>'f\<close> of float values, so that
  nothing is assumed of their rounding. As under numpy's default error settings, none of
  them raises: a division by zero and an \<^verbatim>\<open>arccos\<close> out of range return NaN or an
  infinity (with a warning that is not modelled). \<open>f_norm\<close> is \<^verbatim>\<open>np.linalg.norm\<close>,
  \<open>f_dot\<close> the value of \<^verbatim>\<open>np.dot\<close> on two vectors of one length, \<open>f_one\<close> the
  constant \<^verbatim>\<open>1.0\<close>.
\<close>

record 'f float_ops =
  f_add :: "'f \<Rightarrow> 'f \<Rightarrow> 'f"
  f_sub :: "'f \<Rightarrow> 'f \<Rightarrow> 'f"
  f_mul :: "'f \<Rightarrow> 'f \<Rightarrow> 'f"
  f_div :: "'f \<Rightarrow> 'f \<Rightarrow> 'f"
  f_sin :: "'f \<Rightarrow> 'f"
  f_arccos :: "'f \<Rightarrow> 'f"
  f_norm :: "'f list \<Rightarrow> 'f"
  f_dot :: "'f list \<Rightarrow> 'f list \<Rightarrow> 'f"
  f_one :: 'f

text \<open>\<^verbatim>\<open>np.dot\<close> of two vectors: a ValueError when the shapes differ.\<close>

definition np_dot :: "'f float_ops \<Rightarrow> 'f list \<Rightarrow> 'f list \<Rightarrow> error + 'f" where
  "np_dot ops a b = (if length a \<noteq> length b then Inl ValueError else Inr (f_dot ops a b))"

definition slerp :: "'f float_ops \<Rightarrow> 'f list \<Rightarrow> 'f list \<Rightarrow> 'f \<Rightarrow> error + 'f list" where
  "slerp ops p0 p1 t =
     (case np_dot ops (map (\<lambda>x. f_div ops x (f_norm ops p0)) p0)
                      (map (\<lambda>x. f_div ops x (f_norm ops p1)) p1) of
        Inl e \<Rightarrow> Inl e
      | Inr d \<Rightarrow>
          let omega = f_arccos ops d;
              so = f_sin ops omega;
              c0 = f_div ops (f_sin ops (f_mul ops (f_sub ops (f_one ops) t) omega)) so;
              c1 = f_div ops (f_sin ops (f_mul ops t omega)) so
          in Inr (map2 (\<lambda>x y. f_add ops (f_mul ops c0 x) (f_mul ops c1 y)) p0 p1))"

text \<open>
  Float values as reals with the IEEE special values, and the operations computed without
  rounding (zero has no sign, so a non-zero value divided by zero gives the infinity of the
  numerator's sign). IEEE 754 arithmetic is correctly rounded, so float64 agrees with these
  operations wherever the exact result is a float64 number, and \<^verbatim>\<open>np.sin\<close> and
  \<^verbatim>\<open>np.arccos\<close> agree with them at the arguments 0 and 1. Elsewhere float64 rounds and
  the two differ: \<open>exact_ops\<close> is used below only on an input where every intermediate
  value is 0, 1/2, 1 or NaN.
\<close>

datatype npfloat = Finite real | PosInf | NegInf | NaN

fun np_add :: "npfloat \<Rightarrow> npfloat \<Rightarrow> npfloat" where
  "np_add (Finite a) (Finite b) = Finite (a + b)"
| "np_add NaN y = NaN"
| "np_add x NaN = NaN"
| "np_add PosInf NegInf = NaN"
| "np_add NegInf PosInf = NaN"
| "np_add PosInf y = PosInf"
| "np_add NegInf y = NegInf"
| "np_add x PosInf = PosInf"
| "np_add x NegInf = NegInf"

fun np_neg :: "npfloat \<Rightarrow> npfloat" where
  "np_neg (Finite a) = Finite (- a)"
| "np_neg PosInf = NegInf"
| "np_neg NegInf = PosInf"
| "np_neg NaN = NaN"

definition np_sub :: "npfloat \<Rightarrow> npfloat \<Rightarrow> npfloat" where
  "np_sub x y = np_add x (np_neg y)"

definition inf_of_sign :: "bool \<Rightarrow> npfloat" where
  "inf_of_sign positive = (if positive then PosInf else NegInf)"

fun np_mul :: "npfloat \<Rightarrow> npfloat \<Rightarrow> npfloat" where
  "np_mul (Finite a) (Finite b) = Finite (a * b)"
| "np_mul NaN y = NaN"
| "np_mul x NaN = NaN"
| "np_mul (Finite a) PosInf = (if a = 0 then NaN else inf_of_sign (0 < a))"
| "np_mul (Finite a) NegInf = (if a = 0 then NaN else inf_of_sign (a < 0))"
| "np_mul PosInf (Finite b) = (if b = 0 then NaN else inf_of_sign (0 < b))"
| "np_mul NegInf (Finite b) = (if b = 0 then NaN else inf_of_sign (b < 0))"
| "np_mul PosInf PosInf = PosInf"
| "np_mul NegInf NegInf = PosInf"
| "np_mul PosInf NegInf = NegInf"
| "np_mul NegInf PosInf = NegInf"

fun np_div :: "npfloat \<Rightarrow> npfloat \<Rightarrow> npfloat" where
  "np_div (Finite a) (Finite b) =
     (if b = 0 then (if a = 0 then NaN else inf_of_sign (0 < a)) else Finite (a / b))"
| "np_div NaN y = NaN"
| "np_div x NaN = NaN"
| "np_div (Finite a) PosInf = Finite 0"
| "np_div (Finite a) NegInf = Finite 0"
| "np_div PosInf (Finite b) = inf_of_sign (0 \<le> b)"
| "np_div NegInf (Finite b) = inf_of_sign (b < 0)"
| "np_div PosInf PosInf = NaN"
| "np_div PosInf NegInf = NaN"
| "np_div NegInf PosInf = NaN"
| "np_div NegInf NegInf = NaN"

fun np_sin :: "npfloat \<Rightarrow> npfloat" where
  "np_sin (Finite x) = Finite (sin x)"
| "np_sin x = NaN"

fun np_arccos :: "npfloat \<Rightarrow> npfloat" where
  "np_arccos (Finite x) = (if - 1 \<le> x \<and> x \<le> 1 then Finite (arccos x) else NaN)"
| "np_arccos x = NaN"

fun np_sqrt :: "npfloat \<Rightarrow> npfloat" where
  "np_sqrt (Finite x) = (if x < 0 then NaN else Finite (sqrt x))"
| "np_sqrt PosInf = PosInf"
| "np_sqrt x = NaN"

definition exact_ops :: "npfloat float_ops" where
  "exact_ops =
     \<lparr>f_add = np_add, f_sub = np_sub, f_mul = np_mul, f_div = np_div,
      f_sin = np_sin, f_arccos = np_arccos,
      f_norm = (\<lambda>p. np_sqrt (foldl np_add (Finite 0) (map (\<lambda>x. np_mul x x) p))),
      f_dot = (\<lambda>a b. foldl np_add (Finite 0) (map2 np_mul a b)),
      f_one = Finite 1\<rparr>"

section \<open>Format converters\<close>

text \<open>
  The three assignments that \<^verbatim>\<open>to_big_strokes\<close>, \<^verbatim>\<open>pad_stroke_batch\<close> and \<^verbatim>\<open>pad_batch\<close>
  share, on one row array \<open>result\<close> and a stroke-3 array of \<open>l\<close> points:
  \<^verbatim>\<open>result[0:l, 0:2] = stroke[:, 0:2]\<close>, \<^verbatim>\<open>result[0:l, 3] = stroke[:, 2]\<close>,
  \<^verbatim>\<open>result[0:l, 2] = 1 - result[0:l, 3]\<close>.
\<close>

definition set_stroke5 :: "nat \<Rightarrow> pt3 list \<Rightarrow> pt5 list \<Rightarrow> pt5 list" where
  "set_stroke5 l stroke result =
     (let result = assign_prefix l (\<lambda>s r. r\<lparr>x5 := dx s, y5 := dy s\<rparr>) stroke result;
          result = assign_prefix l (\<lambda>s r. r\<lparr>p_up := pen_lift s\<rparr>) stroke result;
          result = map_prefix l (\<lambda>r. r\<lparr>p_down := 1 - p_up r\<rparr>) result
      in result)"

text \<open>\<^verbatim>\<open>to_big_strokes(stroke, max_len)\<close>: stroke-3 to padded stroke-5, no start token.\<close>

definition to_big_strokes :: "pt3 list \<Rightarrow> nat \<Rightarrow> error + pt5 list" where
  "to_big_strokes stroke max_len =
     (let result = zeros5 max_len;
          l = length stroke
      in if \<not> l \<le> max_len then Inl AssertionError
         else
           let result = set_stroke5 l stroke result;
               result = map_from l (\<lambda>r. r\<lparr>p_end := 1\<rparr>) result
           in Inr result)"

text \<open>
  The search loop of \<^verbatim>\<open>to_normal_strokes\<close>: \<open>l\<close> starts at 0 and is set to the first
  index whose end channel is positive; \<open>find_end i rows\<close> is the value of \<open>l\<close> after the
  loop has run over \<open>rows\<close>, whose first row has index \<open>i\<close>.
\<close>

fun find_end :: "nat \<Rightarrow> pt5 list \<Rightarrow> nat" where
  "find_end i [] = 0"
| "find_end i (r # rs) = (if p_end r > 0 then i else find_end (Suc i) rs)"

definition to_normal_strokes :: "pt5 list \<Rightarrow> pt3 list" where
  "to_normal_strokes big_stroke =
     (let l = find_end 0 big_stroke;
          l = (if l = 0 then length big_stroke else l)
      in map (\<lambda>r. \<lparr>dx = x5 r, dy = y5 r, pen_lift = p_up r\<rparr>) (take l big_stroke))"

section \<open>Sketch segmentation\<close>

text \<open>
  \<^verbatim>\<open>np.where(data[:, 2] == 1)[0]\<close>: the indices of the rows whose pen_lift is 1.
\<close>

definition where_lift :: "pt3 list \<Rightarrow> nat list" where
  "where_lift data = filter (\<lambda>i. pen_lift (data ! i) = 1) [0..<length data]"

text \<open>
  \<^verbatim>\<open>np.split(ary, indices)\<close> returns \<open>ary[0:i0], ary[i0:i1], ..., ary[i_last:]\<close>;
  \<open>np_split_from st\<close> is the rest of that list once the previous division point is \<open>st\<close>.
\<close>

fun np_split_from :: "nat \<Rightarrow> 'a list \<Rightarrow> nat list \<Rightarrow> 'a list list" where
  "np_split_from st ary [] = [drop st ary]"
| "np_split_from st ary (i # inds) = take (i - st) (drop st ary) # np_split_from i ary inds"

definition np_split :: "'a list \<Rightarrow> nat list \<Rightarrow> 'a list list" where
  "np_split ary inds = np_split_from 0 ary inds"

definition split_sketch :: "pt3 list \<Rightarrow> pt3 list list" where
  "split_sketch data =
     (let pen_stroke_bounds = map Suc (where_lift data);
          pen_strokes = np_split data (butlast pen_stroke_bounds)
      in pen_strokes)"

text \<open>Python's \<^verbatim>\<open>max\<close> of a list: a ValueError on the empty list.\<close>

fun py_max :: "nat list \<Rightarrow> error + nat" where
  "py_max [] = Inl ValueError"
| "py_max (x # xs) = Inr (fold max xs x)"

definition get_max_stroke_len :: "pt3 list \<Rightarrow> error + nat" where
  "get_max_stroke_len sketch = py_max (map length (split_sketch sketch))"

section \<open>Augmentation\<close>

text \<open>
  The random source is a sequence of uniform draws; each call of \<^verbatim>\<open>np.random.rand()\<close>
  or \<^verbatim>\<open>np.random.random()\<close> takes the next one.
\<close>

type_synonym rng = "nat \<Rightarrow> real"

definition draw :: "rng \<Rightarrow> real \<times> rng" where
  "draw g = (g 0, \<lambda>n. g (Suc n))"

text \<open>
  The loop state of \<^verbatim>\<open>augment_strokes\<close>. After the first point is emitted, \<open>stroke\<close>,
  \<open>prev_stroke\<close> and the last element of \<open>result\<close> are one and the same Python list,
  so the in-place \<^verbatim>\<open>stroke[0] += ...\<close> changes all three; before that, \<open>stroke\<close> and
  \<open>prev_stroke\<close> are two separate lists \<open>[0, 0, 1]\<close>.
\<close>

record aug_state =
  a_result :: "pt3 list"
  a_prev_stroke :: pt3
  a_count :: nat
  a_stroke :: pt3

definition aug_init :: aug_state where
  "aug_init = \<lparr>a_result = [],
               a_prev_stroke = \<lparr>dx = 0, dy = 0, pen_lift = 1\<rparr>,
               a_count = 0,
               a_stroke = \<lparr>dx = 0, dy = 0, pen_lift = 1\<rparr>\<rparr>"

definition augment_step :: "real \<Rightarrow> aug_state \<Rightarrow> pt3 \<Rightarrow> real \<Rightarrow> aug_state" where
  "augment_step prob st candidate urnd =
     (let count = (if pen_lift candidate = 1 \<or> pen_lift (a_prev_stroke st) = 1 then 0
                   else a_count st + 1)
      in if pen_lift candidate = 0 \<and> pen_lift (a_prev_stroke st) = 0 \<and> count > 2 \<and> urnd < prob
         then
           let stroke = (a_stroke st)\<lparr>dx := dx (a_stroke st) + dx candidate,
                                      dy := dy (a_stroke st) + dy candidate\<rparr>
           in if a_result st = []
              then st\<lparr>a_count := count, a_stroke := stroke\<rparr>
              else st\<lparr>a_count := count, a_stroke := stroke, a_prev_stroke := stroke,
                      a_result := butlast (a_result st) @ [stroke]\<rparr>
         else st\<lparr>a_count := count, a_stroke := candidate, a_prev_stroke := candidate,
                 a_result := a_result st @ [candidate]\<rparr>)"

fun augment_loop :: "real \<Rightarrow> pt3 list \<Rightarrow> rng \<Rightarrow> aug_state \<Rightarrow> aug_state \<times> rng" where
  "augment_loop prob [] g st = (st, g)"
| "augment_loop prob (candidate # rest) g st =
     (let (urnd, g') = draw g
      in augment_loop prob rest g' (augment_step prob st candidate urnd))"

definition augment_strokes :: "pt3 list \<Rightarrow> real \<Rightarrow> rng \<Rightarrow> pt3 list \<times> rng" where
  "augment_strokes strokes prob g =
     (let (st, g') = augment_loop prob strokes g aug_init in (a_result st, g'))"

section \<open>DataLoader\<close>

text \<open>
  A mini-batch is the triple \<^verbatim>\<open>(None, result, seq_len)\<close>; the placeholder \<^verbatim>\<open>None\<close>
  is left out. \<open>arr\<close> has one row per sketch, each row a list of stroke-5 points.
\<close>

record batch =
  arr :: "pt5 list list"
  seq_len :: "nat list"

record DataLoader =
  stroke_batch_queue :: "batch list"
  batch_size :: nat
  max_seq_length :: nat
  scale_factor :: real
  random_scale_factor :: real
  limit :: real
  augment_stroke_prob :: real
  strokes :: "pt3 list list"
  num_batches :: nat

definition start_stroke_token :: "real list" where
  "start_stroke_token = [0, 0, 1, 0, 0]"

text \<open>Running a fallible body over a list, stopping at the first error.\<close>

fun mapE :: "('a \<Rightarrow> error + 'b) \<Rightarrow> 'a list \<Rightarrow> error + 'b list" where
  "mapE f [] = Inr []"
| "mapE f (x # xs) =
     (case f x of
        Inl e \<Rightarrow> Inl e
      | Inr y \<Rightarrow> (case mapE f xs of Inl e \<Rightarrow> Inl e | Inr ys \<Rightarrow> Inr (y # ys)))"

subsection \<open>preprocess\<close>

text \<open>
  \<^verbatim>\<open>np.minimum(sketch, limit)\<close>, \<^verbatim>\<open>np.maximum(sketch, -limit)\<close> on all three columns,
  then \<^verbatim>\<open>sketch[:, 0:2] /= scale_factor\<close>. The entries are reals: the conversion to
  float32 between the clamp and the division, and the rounding of the division, are not
  modelled. A division by \<open>scale_factor = 0\<close> stores \<^verbatim>\<open>inf\<close> and \<^verbatim>\<open>nan\<close> in the code,
  which a real entry cannot hold; the statements on stored offsets are made for
  \<open>scale_factor \<noteq> 0\<close> (the configuration has \<open>scale_factor > 0\<close>).
\<close>

definition clamp_scale :: "DataLoader \<Rightarrow> pt3 list \<Rightarrow> pt3 list" where
  "clamp_scale dl sketch =
     (let sketch = map (\<lambda>p. \<lparr>dx = min (dx p) (limit dl), dy = min (dy p) (limit dl),
                              pen_lift = min (pen_lift p) (limit dl)\<rparr>) sketch;
          sketch = map (\<lambda>p. \<lparr>dx = max (dx p) (- limit dl), dy = max (dy p) (- limit dl),
                              pen_lift = max (pen_lift p) (- limit dl)\<rparr>) sketch;
          sketch = map (\<lambda>p. p\<lparr>dx := dx p / scale_factor dl, dy := dy p / scale_factor dl\<rparr>) sketch
      in sketch)"

text \<open>The first loop of \<^verbatim>\<open>preprocess\<close>: \<open>raw_data\<close>, in input order.\<close>

fun preprocess_loop :: "DataLoader \<Rightarrow> pt3 list list \<Rightarrow> error + pt3 list list" where
  "preprocess_loop dl [] = Inr []"
| "preprocess_loop dl (sketch # rest) =
     (case get_max_stroke_len sketch of
        Inl e \<Rightarrow> Inl e
      | Inr m \<Rightarrow>
          (case preprocess_loop dl rest of
             Inl e \<Rightarrow> Inl e
           | Inr raw_data \<Rightarrow>
               if m \<le> max_seq_length dl then Inr (clamp_scale dl sketch # raw_data)
               else Inr raw_data))"

text \<open>
  \<^verbatim>\<open>np.argsort\<close> is called with its default kind, for which numpy promises an index
  array that sorts the keys and says nothing of the order of equal keys. The array it
  returns on \<open>seq_len\<close> is an input of the model, \<open>argsort_seq_len\<close>;
  \<open>is_argsort keys idx\<close> is what numpy promises of it: a permutation of the positions
  that lists the keys in ascending order.
\<close>

definition is_argsort :: "nat list \<Rightarrow> nat list \<Rightarrow> bool" where
  "is_argsort keys idx \<longleftrightarrow>
     distinct idx \<and> set idx = {..<length keys} \<and> sorted (map (\<lambda>i. keys ! i) idx)"

definition preprocess :: "nat list \<Rightarrow> DataLoader \<Rightarrow> pt3 list list \<Rightarrow> error + DataLoader" where
  "preprocess argsort_seq_len dl sketches =
     (case preprocess_loop dl sketches of
        Inl e \<Rightarrow> Inl e
      | Inr raw_data \<Rightarrow>
          let seq_len = map length raw_data;
              count_data = length raw_data;
              idx = argsort_seq_len
          in (case mapE (\<lambda>i. if i < length idx \<and> idx ! i < length raw_data
                               then Inr (raw_data ! (idx ! i)) else Inl IndexError)
                        [0..<length seq_len] of
                Inl e \<Rightarrow> Inl e
              | Inr strokes' \<Rightarrow>
                  if batch_size dl = 0 then Inl ZeroDivisionError
                  else Inr (dl\<lparr>strokes := strokes',
                               num_batches := count_data div batch_size dl\<rparr>)))"

text \<open>The constructor: the fields, an empty queue, then \<open>preprocess\<close>.\<close>

definition DataLoader_init ::
  "nat list \<Rightarrow> pt3 list list \<Rightarrow> nat \<Rightarrow> nat \<Rightarrow> real \<Rightarrow> real \<Rightarrow> real \<Rightarrow> real
   \<Rightarrow> error + DataLoader" where
  "DataLoader_init argsort_seq_len sketches bs msl sf rsf asp lmt =
     preprocess argsort_seq_len
       \<lparr>stroke_batch_queue = [], batch_size = bs, max_seq_length = msl, scale_factor = sf,
        random_scale_factor = rsf, limit = lmt, augment_stroke_prob = asp,
        strokes = [], num_batches = 0\<rparr>
       sketches"

subsection \<open>Sampling a cohort\<close>

definition random_scale :: "DataLoader \<Rightarrow> pt3 list \<Rightarrow> rng \<Rightarrow> pt3 list \<times> rng" where
  "random_scale dl data g =
     (let (u1, g) = draw g;
          x_scale_factor = (u1 - 0.5) * 2 * random_scale_factor dl + 1.0;
          (u2, g) = draw g;
          y_scale_factor = (u2 - 0.5) * 2 * random_scale_factor dl + 1.0;
          result = map (\<lambda>p. p\<lparr>dx := dx p * x_scale_factor\<rparr>) data;
          result = map (\<lambda>p. p\<lparr>dy := dy p * y_scale_factor\<rparr>) result
      in (result, g))"

text \<open>\<^verbatim>\<open>np.array(xs, dtype=int)\<close> on floats truncates toward zero.\<close>

definition to_int :: "real \<Rightarrow> int" where
  "to_int x = (if 0 \<le> x then \<lfloor>x\<rfloor> else \<lceil>x\<rceil>)"

text \<open>
  The body of the loop of \<^verbatim>\<open>_get_sketches_from_indices\<close> for one stored sketch, up to
  \<^verbatim>\<open>sketches.append(data_copy)\<close>: random scaling, then augmentation when
  \<open>augment_stroke_prob > 0\<close>.
\<close>

definition sketch_copy :: "DataLoader \<Rightarrow> pt3 list \<Rightarrow> rng \<Rightarrow> pt3 list \<times> rng" where
  "sketch_copy dl sketch g =
     (let (data, g) = random_scale dl sketch g;
          data_copy = data
      in if augment_stroke_prob dl > 0
         then augment_strokes data_copy (augment_stroke_prob dl) g
         else (data_copy, g))"

text \<open>
  The loop of \<^verbatim>\<open>_get_sketches_from_indices\<close>. \<^verbatim>\<open>self.strokes[i]\<close> raises IndexError out
  of range. When \<^verbatim>\<open>augment_strokes\<close> returns no point, \<^verbatim>\<open>np.array([])\<close> is
  one-dimensional and \<^verbatim>\<open>data_copy[:, 2]\<close> raises IndexError. Each entry of the result
  is a sketch with the sum of its pen_lift column.
\<close>

fun get_sketches_loop ::
  "DataLoader \<Rightarrow> nat list \<Rightarrow> rng \<Rightarrow> error + ((pt3 list \<times> real) list \<times> rng)" where
  "get_sketches_loop dl [] g = Inr ([], g)"
| "get_sketches_loop dl (i # indices) g =
     (if \<not> i < length (strokes dl) then Inl IndexError
      else
        let (data_copy, g) = sketch_copy dl (strokes dl ! i) g
        in if augment_stroke_prob dl > 0 \<and> data_copy = [] then Inl IndexError
           else
             let len = sum_list (map pen_lift data_copy)
             in (case get_sketches_loop dl indices g of
                   Inl e \<Rightarrow> Inl e
                 | Inr (rest, g') \<Rightarrow> Inr ((data_copy, len) # rest, g')))"

definition get_sketches_from_indices ::
  "DataLoader \<Rightarrow> nat list \<Rightarrow> rng \<Rightarrow> error + (pt3 list list \<times> int list \<times> rng)" where
  "get_sketches_from_indices dl indices g =
     (case get_sketches_loop dl indices g of
        Inl e \<Rightarrow> Inl e
      | Inr (res, g') \<Rightarrow> Inr (map fst res, map (to_int \<circ> snd) res, g'))"

subsection \<open>pad_stroke_batch\<close>

text \<open>
  The start token block of \<^verbatim>\<open>pad_stroke_batch\<close>, on one row:
  \<^verbatim>\<open>result[i, 1:, :] = result[i, :-1, :]\<close> keeps point 0 and moves every other point one
  step to the right (the last one is lost), then point 0 is zeroed and its three pen
  channels are set from \<open>start_stroke_token\<close>.
\<close>

definition prepend_s0 :: "pt5 list \<Rightarrow> pt5 list" where
  "prepend_s0 row =
     (let row = take 1 row @ butlast row;
          row = row[0 := zero5];
          row = row[0 := (row ! 0)\<lparr>p_down := start_stroke_token ! 2\<rparr>];
          row = row[0 := (row ! 0)\<lparr>p_up := start_stroke_token ! 3\<rparr>];
          row = row[0 := (row ! 0)\<lparr>p_end := start_stroke_token ! 4\<rparr>]
      in row)"

text \<open>
  The body of the inner loop of \<^verbatim>\<open>pad_stroke_batch\<close> for row \<open>i\<close> of mini-batch \<open>j\<close>:
  \<open>sketch\<close> is \<^verbatim>\<open>sketch_strokes[i]\<close>; the result is the row and its entry of \<open>seq_len\<close>.
  The start token block stands inside the branch of a present stroke, as in the source.
\<close>

definition pad_stroke_row :: "nat \<Rightarrow> pt3 list list \<Rightarrow> nat \<Rightarrow> error + (pt5 list \<times> nat)" where
  "pad_stroke_row msl sketch j =
     (let row = zeros5 (msl + 1)
      in if length sketch \<le> j then Inr (map_from 0 (\<lambda>r. r\<lparr>p_end := 1\<rparr>) row, 0)
         else
           let l = length (sketch ! j)
           in if \<not> l \<le> msl then Inl AssertionError
              else
                let row = set_stroke5 l (sketch ! j) row;
                    is_last_stroke = (length sketch \<le> j + 1);
                    row = (if is_last_stroke then map_from l (\<lambda>r. r\<lparr>p_end := 1\<rparr>) row
                           else map_from l (\<lambda>r. r\<lparr>p_up := 1\<rparr>) row);
                    all_strokes_policy = True
                in if j = 0 \<or> all_strokes_policy
                   then Inr (prepend_s0 row, l + 1)
                   else Inr (row, l))"

text \<open>One pass of the outer loop: mini-batch \<open>j\<close>.\<close>

definition pad_stroke_minibatch ::
  "DataLoader \<Rightarrow> pt3 list list list \<Rightarrow> nat \<Rightarrow> error + batch" where
  "pad_stroke_minibatch dl sketch_strokes j =
     (case mapE (\<lambda>i. if i < length sketch_strokes
                      then pad_stroke_row (max_seq_length dl) (sketch_strokes ! i) j
                      else Inl IndexError)
                [0..<batch_size dl] of
        Inl e \<Rightarrow> Inl e
      | Inr rows \<Rightarrow> Inr \<lparr>arr = map fst rows, seq_len = map snd rows\<rparr>)"

definition pad_stroke_batch :: "DataLoader \<Rightarrow> pt3 list list list \<Rightarrow> error + batch list" where
  "pad_stroke_batch dl sketch_strokes =
     (case py_max (map length sketch_strokes) of
        Inl e \<Rightarrow> Inl e
      | Inr max_num_strokes \<Rightarrow> mapE (pad_stroke_minibatch dl sketch_strokes) [0..<max_num_strokes])"

subsection \<open>random_stroke_batch\<close>

text \<open>
  \<open>perm\<close> is the value of \<^verbatim>\<open>np.random.permutation(range(0, len(self.strokes)))\<close>, drawn
  only when the queue is empty. The result is the mini-batch returned, the loader with its
  queue updated, and the rest of the random source.
\<close>

definition random_stroke_batch ::
  "DataLoader \<Rightarrow> nat list \<Rightarrow> rng \<Rightarrow> error + (batch \<times> DataLoader \<times> rng)" where
  "random_stroke_batch dl perm g =
     (case (if stroke_batch_queue dl = []
            then
              let idx = take (batch_size dl) perm
              in (case get_sketches_from_indices dl idx g of
                    Inl e \<Rightarrow> Inl e
                  | Inr (sketches, num_strokes, g') \<Rightarrow>
                      let sketch_strokes = map split_sketch sketches
                      in (case pad_stroke_batch dl sketch_strokes of
                            Inl e \<Rightarrow> Inl e
                          | Inr batches \<Rightarrow>
                              Inr (dl\<lparr>stroke_batch_queue := stroke_batch_queue dl @ batches\<rparr>, g')))
            else Inr (dl, g)) of
        Inl e \<Rightarrow> Inl e
      | Inr (dl', g') \<Rightarrow>
          if stroke_batch_queue dl' = [] then Inl AssertionError
          else Inr (hd (stroke_batch_queue dl'),
                    dl'\<lparr>stroke_batch_queue := tl (stroke_batch_queue dl')\<rparr>, g'))"

text \<open>
  Successive calls: \<open>calls n dl rs\<close> makes \<open>n\<close> calls, the \<open>k\<close>-th with the random inputs
  \<open>rs k\<close>, and collects the mini-batches returned.
\<close>

fun calls :: "nat \<Rightarrow> DataLoader \<Rightarrow> (nat \<Rightarrow> nat list \<times> rng) \<Rightarrow> error + (batch list \<times> DataLoader)" where
  "calls 0 dl rs = Inr ([], dl)"
| "calls (Suc n) dl rs =
     (case random_stroke_batch dl (fst (rs 0)) (snd (rs 0)) of
        Inl e \<Rightarrow> Inl e
      | Inr (b, dl', g') \<Rightarrow>
          (case calls n dl' (\<lambda>k. rs (Suc k)) of
             Inl e \<Rightarrow> Inl e
           | Inr (bs, dl'') \<Rightarrow> Inr (b # bs, dl'')))"

section \<open>Notions used in the statements\<close>

definition big_of :: "pt3 \<Rightarrow> pt5" where
  "big_of s = \<lparr>x5 = dx s, y5 = dy s, p_down = 1 - pen_lift s, p_up = pen_lift s, p_end = 0\<rparr>"

definition end5 :: pt5 where
  "end5 = \<lparr>x5 = 0, y5 = 0, p_down = 0, p_up = 0, p_end = 1\<rparr>"

definition eos5 :: pt5 where
  "eos5 = \<lparr>x5 = 0, y5 = 0, p_down = 0, p_up = 1, p_end = 0\<rparr>"

definition start5 :: pt5 where
  "start5 = \<lparr>x5 = 0, y5 = 0, p_down = 1, p_up = 0, p_end = 0\<rparr>"

definition one_hot :: "pt5 \<Rightarrow> bool" where
  "one_hot r = ((p_down r = 1 \<and> p_up r = 0 \<and> p_end r = 0) \<or>
                (p_down r = 0 \<and> p_up r = 1 \<and> p_end r = 0) \<or>
                (p_down r = 0 \<and> p_up r = 0 \<and> p_end r = 1))"

text \<open>
  The row of a present stroke as it stands before the start token block: the stroke's
  points, then the padding chosen by \<open>is_last_stroke\<close>.
\<close>

definition unshifted_row :: "nat \<Rightarrow> pt3 list list \<Rightarrow> nat \<Rightarrow> pt5 list" where
  "unshifted_row msl sketch j =
     (let l = length (sketch ! j);
          row = set_stroke5 l (sketch ! j) (zeros5 (msl + 1))
      in if length sketch \<le> j + 1 then map_from l (\<lambda>r. r\<lparr>p_end := 1\<rparr>) row
         else map_from l (\<lambda>r. r\<lparr>p_up := 1\<rparr>) row)"

text \<open>The row and the recorded length of row \<open>i\<close> in mini-batch \<open>j\<close>, in closed form.\<close>

definition row_of :: "nat \<Rightarrow> pt3 list list \<Rightarrow> nat \<Rightarrow> pt5 list \<times> nat" where
  "row_of msl sketch j =
     (if length sketch \<le> j then (replicate (msl + 1) end5, 0)
      else (start5 # map big_of (sketch ! j) @
                  replicate (msl - length (sketch ! j)) (if length sketch \<le> j + 1 then end5 else eos5),
                length (sketch ! j) + 1))"

text \<open>
  A sketch is retained by \<open>preprocess\<close> when its longest pen-stroke fits.
\<close>

definition kept :: "DataLoader \<Rightarrow> pt3 list \<Rightarrow> bool" where
  "kept dl sketch =
     (case get_max_stroke_len sketch of Inl e \<Rightarrow> False | Inr m \<Rightarrow> m \<le> max_seq_length dl)"

text \<open>
  What \<^verbatim>\<open>augment_strokes\<close> does to a run of consecutive input points that end up in one
  output point: the first is emitted, the others are dropped and their offsets added to it.
\<close>

definition merge_group :: "pt3 list \<Rightarrow> pt3" where
  "merge_group grp =
     \<lparr>dx = sum_list (map dx grp), dy = sum_list (map dy grp), pen_lift = pen_lift (hd grp)\<rparr>"

text \<open>
  A grouping of the input that \<^verbatim>\<open>augment_strokes\<close> can produce: no group is empty, a group
  of several points has no pen-lift in it, and the group that begins a pen-stroke (\<open>start\<close>:
  the first group, or the one after a group ending in a pen-lift) is a single point.
\<close>

fun groups_ok :: "bool \<Rightarrow> pt3 list list \<Rightarrow> bool" where
  "groups_ok start [] = True"
| "groups_ok start (grp # gs) =
     (grp \<noteq> [] \<and> (1 < length grp \<longrightarrow> (\<forall>p\<in>set grp. pen_lift p = 0)) \<and>
      (start \<longrightarrow> length grp = 1) \<and> groups_ok (pen_lift (last grp) = 1) gs)"

text \<open>The loop invariant of \<^verbatim>\<open>augment_strokes\<close>, for the grouping \<open>gs\<close> of the points read so far.\<close>

definition aug_inv :: "pt3 list list \<Rightarrow> aug_state \<Rightarrow> bool" where
  "aug_inv gs st \<longleftrightarrow>
     groups_ok True gs \<and> a_result st = map merge_group gs \<and>
     (gs = [] \<longrightarrow> pen_lift (a_prev_stroke st) = 1) \<and>
     (gs \<noteq> [] \<longrightarrow> a_stroke st = merge_group (last gs) \<and> a_prev_stroke st = merge_group (last gs)) \<and>
     (gs \<noteq> [] \<longrightarrow> (length gs = 1 \<or> pen_lift (last (last (butlast gs))) = 1) \<longrightarrow> a_count st = 0)"

definition is_lift :: "pt3 \<Rightarrow> bool" where
  "is_lift p \<longleftrightarrow> pen_lift p = 1"

text \<open>
  The lengths of the pieces of \<open>split_sketch\<close>, read off the pen-lift flags: a piece ends
  at every pen-lift but the last one, and the last piece takes all that is left. \<open>n\<close> is
  the number of points already in the open piece.
\<close>

fun seglens :: "nat \<Rightarrow> bool list \<Rightarrow> nat list" where
  "seglens n [] = [n]"
| "seglens n (b # bs) = (if b \<and> True \<in> set bs then Suc n # seglens 0 bs else seglens (Suc n) bs)"






section \<open>Concrete inputs\<close>

definition pt :: "real \<Rightarrow> real \<Rightarrow> real \<Rightarrow> pt3" where
  "pt a b c = \<lparr>dx = a, dy = b, pen_lift = c\<rparr>"

definition ex_dl :: DataLoader where
  "ex_dl = \<lparr>stroke_batch_queue = [], batch_size = 2, max_seq_length = 3, scale_factor = 1,
            random_scale_factor = 0, limit = 1000, augment_stroke_prob = 0,
            strokes = [], num_batches = 0\<rparr>"

definition ex_A :: "pt3 list list" where
  "ex_A = [[pt 1 2 0, pt 3 4 1], [pt 5 6 1], [pt 7 8 0, pt 9 10 0, pt 11 12 1]]"

definition ex_B :: "pt3 list list" where
  "ex_B = [[pt 1 1 1]]"

definition ex_batches :: "batch list" where
  "ex_batches =
     [\<lparr>arr = [[start5, big_of (pt 1 2 0), big_of (pt 3 4 1), eos5],
              [start5, big_of (pt 1 1 1), end5, end5]],
       seq_len = [3, 2]\<rparr>,
      \<lparr>arr = [[start5, big_of (pt 5 6 1), eos5, eos5],
              [end5, end5, end5, end5]],
       seq_len = [2, 0]\<rparr>,
      \<lparr>arr = [[start5, big_of (pt 7 8 0), big_of (pt 9 10 0), big_of (pt 11 12 1)],
              [end5, end5, end5, end5]],
       seq_len = [4, 0]\<rparr>]"

text \<open>Sketches used as concrete input.\<close>

definition s_two :: "pt3 list" where
  "s_two = [pt 1 2 0, pt 3 4 1, pt 5 6 1]"

definition s_long :: "pt3 list" where
  "s_long = [pt 0 0 0, pt 0 0 0, pt 0 0 0, pt 0 0 1]"

definition s_one :: "pt3 list" where
  "s_one = [pt 7 8 1]"

definition s_other :: "pt3 list" where
  "s_other = [pt 9 9 1]"




definition ex_dl_half :: DataLoader where
  "ex_dl_half = ex_dl\<lparr>limit := 1 / 2\<rparr>"


definition ex_data :: "pt3 list" where
  "ex_data = [pt 1 0 0, pt 2 0 0, pt 3 0 0, pt 4 0 0, pt 5 0 0, pt 6 0 1, pt 7 0 1]"

text \<open>Loaders used as concrete input of \<open>random_stroke_batch\<close>.\<close>

definition s_four :: "pt3 list" where
  "s_four = [pt 1 0 1, pt 1 0 1, pt 1 0 1, pt 1 0 1]"

definition c_four :: "pt3 list" where
  "c_four = [pt (1 / 2) 0 (1 / 2), pt (1 / 2) 0 (1 / 2), pt (1 / 2) 0 (1 / 2), pt (1 / 2) 0 (1 / 2)]"

definition ex_loader_half :: DataLoader where
  "ex_loader_half = ex_dl_half\<lparr>strokes := [c_four, c_four], num_batches := 1\<rparr>"

definition ex_dl_aug :: DataLoader where
  "ex_dl_aug = ex_dl\<lparr>augment_stroke_prob := 1 / 2\<rparr>"

definition ex_loader_aug :: DataLoader where
  "ex_loader_aug = ex_dl_aug\<lparr>strokes := [[], []], num_batches := 1\<rparr>"

definition ex_loader :: DataLoader where
  "ex_loader = ex_dl\<lparr>strokes := [s_one, s_two], num_batches := 1\<rparr>"

definition ex_loader_small :: DataLoader where
  "ex_loader_small = ex_dl\<lparr>strokes := [s_one], num_batches := 0\<rparr>"

definition ex_run :: "batch list" where
  "ex_run =
     [\<lparr>arr = [[start5, big_of (pt 1 2 0), big_of (pt 3 4 1), eos5],
              [start5, big_of (pt 7 8 1), end5, end5]],
       seq_len = [3, 2]\<rparr>,
      \<lparr>arr = [[start5, big_of (pt 5 6 1), end5, end5],
              [end5, end5, end5, end5]],
       seq_len = [2, 0]\<rparr>]"

section \<open>Slice assignments, pointwise\<close>

lemma length_assign_prefix [simp]:
  "l \<le> length src \<Longrightarrow> length (assign_prefix l f src rows) = length rows"
  by (simp add: assign_prefix_def)

lemma nth_assign_prefix:
  "l \<le> length src \<Longrightarrow> k < length rows \<Longrightarrow>
   assign_prefix l f src rows ! k = (if k < l then f (src ! k) (rows ! k) else rows ! k)"
  by (simp add: assign_prefix_def nth_append)

lemma length_map_prefix [simp]: "length (map_prefix l g rows) = length rows"
  by (simp add: map_prefix_def)

lemma nth_map_prefix:
  "k < length rows \<Longrightarrow> map_prefix l g rows ! k = (if k < l then g (rows ! k) else rows ! k)"
  by (simp add: map_prefix_def nth_append)

lemma length_map_from [simp]: "length (map_from l g rows) = length rows"
  by (simp add: map_from_def)

lemma nth_map_from:
  "k < length rows \<Longrightarrow> map_from l g rows ! k = (if k < l then rows ! k else g (rows ! k))"
  by (simp add: map_from_def nth_append)

section \<open>Rows in closed form\<close>

lemma set_stroke5_zeros:
  assumes "length stroke \<le> n"
  shows "map_from (length stroke) g (set_stroke5 (length stroke) stroke (zeros5 n)) =
         map big_of stroke @ replicate (n - length stroke) (g zero5)"
    (is "?lhs = ?rhs")
proof (rule nth_equalityI)
  show "length ?lhs = length ?rhs"
    using assms by (simp add: zeros5_def set_stroke5_def)
next
  fix k
  assume "k < length ?lhs"
  then have k: "k < n" by (simp add: zeros5_def set_stroke5_def)
  show "?lhs ! k = ?rhs ! k"
  proof (cases "k < length stroke")
    case True
    then show ?thesis using k
      by (simp add: set_stroke5_def nth_map_from nth_map_prefix nth_assign_prefix zeros5_def
          nth_append big_of_def zero5_def)
  next
    case False
    then show ?thesis using k assms
      by (simp add: set_stroke5_def nth_map_from nth_map_prefix nth_assign_prefix zeros5_def
          nth_append)
  qed
qed

lemma prepend_s0_closed: "row \<noteq> [] \<Longrightarrow> prepend_s0 row = start5 # butlast row"
  by (cases row) (simp_all add: prepend_s0_def Let_def zero5_def start5_def start_stroke_token_def)

lemma pad_points:
  "zero5\<lparr>p_end := 1\<rparr> = end5" "zero5\<lparr>p_up := 1\<rparr> = eos5"
  by (simp_all add: zero5_def end5_def eos5_def)

section \<open>Properties of the converters\<close>

lemma to_big_strokes_closed:
  "length s \<le> n \<Longrightarrow> to_big_strokes s n = Inr (map big_of s @ replicate (n - length s) end5)"
  by (simp add: to_big_strokes_def set_stroke5_zeros pad_points)

lemma find_end_big:
  "find_end i (map big_of s @ replicate m end5) = (if m = 0 then 0 else i + length s)"
  by (induction s arbitrary: i) (auto simp: big_of_def end5_def gr0_conv_Suc)

lemma normal_of_big_of:
  "map ((\<lambda>r. \<lparr>dx = x5 r, dy = y5 r, pen_lift = p_up r\<rparr>) \<circ> big_of) s = s"
  by (induction s) (simp_all add: big_of_def)

lemma to_normal_strokes_big:
  "to_normal_strokes (map big_of s @ replicate m end5) =
     (if s = [] then replicate m \<lparr>dx = 0, dy = 0, pen_lift = 0\<rparr> else s)"
proof (cases "s = []")
  case True
  have "find_end 0 (replicate m end5) = 0"
    using find_end_big [of 0 "[]" m] by simp
  then show ?thesis using True
    by (simp add: to_normal_strokes_def end5_def)
next
  case False
  have "find_end 0 (map big_of s @ replicate m end5) = (if m = 0 then 0 else length s)"
    by (simp add: find_end_big)
  then show ?thesis using False
    by (simp add: to_normal_strokes_def normal_of_big_of)
qed

text \<open>
  The round trip holds for every non-empty sequence that fits, and for the empty one when
  \<open>max_len\<close> is 0.
\<close>

lemma to_normal_strokes_to_big_strokes:
  "length s \<le> n \<Longrightarrow> s \<noteq> [] \<or> n = 0 \<Longrightarrow>
   \<exists>big. to_big_strokes s n = Inr big \<and> to_normal_strokes big = s"
  by (auto simp: to_big_strokes_closed to_normal_strokes_big)

text \<open>
  Claim C5 (the round trip \<open>to_normal_strokes (to_big_strokes s max_len) = s\<close> for every
  \<open>s\<close> with at most \<open>max_len\<close> points) fails on the code at the empty sequence: with
  \<open>max_len = 1\<close> the padded array is one end-of-sketch row, the search loop leaves \<open>l = 0\<close>,
  which the function reads as "no end flag found", and the result is one point \<open>(0, 0, 0)\<close>
  instead of no point.
\<close>

theorem to_normal_strokes_to_big_strokes_empty:
  "to_big_strokes [] 1 = Inr [end5] \<and>
   to_normal_strokes [end5] = [\<lparr>dx = 0, dy = 0, pen_lift = 0\<rparr>] \<and>
   [\<lparr>dx = 0, dy = 0, pen_lift = 0\<rparr>] \<noteq> ([] :: pt3 list)"
  using to_big_strokes_closed [of "[]" 1] to_normal_strokes_big [of "[]" 1] by simp

section \<open>Rows of pad_stroke_batch\<close>

lemma pad_stroke_row_absent:
  "length sketch \<le> j \<Longrightarrow> pad_stroke_row msl sketch j = Inr (replicate (msl + 1) end5, 0)"
  by (simp add: pad_stroke_row_def zeros5_def zero5_def end5_def map_from_def
      del: replicate_Suc)

lemma pad_stroke_row_too_long:
  "j < length sketch \<Longrightarrow> \<not> length (sketch ! j) \<le> msl \<Longrightarrow>
   pad_stroke_row msl sketch j = Inl AssertionError"
  by (simp add: pad_stroke_row_def Let_def)

lemma butlast_replicate_Suc: "butlast (replicate (Suc n) z) = replicate n z"
  by (induction n) simp_all

lemma butlast_fill:
  "length stroke \<le> n \<Longrightarrow>
   butlast (map big_of stroke @ replicate (Suc n - length stroke) z) =
   map big_of stroke @ replicate (n - length stroke) z"
  by (simp add: butlast_append Suc_diff_le butlast_replicate_Suc del: replicate_Suc)

lemma pad_stroke_row_present:
  assumes "j < length sketch" and "length (sketch ! j) \<le> msl"
  shows "pad_stroke_row msl sketch j =
           Inr (start5 # map big_of (sketch ! j) @
                  replicate (msl - length (sketch ! j)) (if length sketch \<le> j + 1 then end5 else eos5),
                length (sketch ! j) + 1)"
proof -
  have le: "length (sketch ! j) \<le> Suc msl" using assms by simp
  show ?thesis
    using assms
    by (simp add: pad_stroke_row_def Let_def set_stroke5_zeros [OF le] pad_points
        prepend_s0_closed butlast_fill del: replicate_Suc)
qed

section \<open>Mini-batches of pad_stroke_batch\<close>

lemma mapE_Inr: "(\<And>x. x \<in> set xs \<Longrightarrow> f x = Inr (g x)) \<Longrightarrow> mapE f xs = Inr (map g xs)"
  by (induction xs) simp_all

lemma mapE_InrD:
  "mapE f xs = Inr ys \<Longrightarrow> length ys = length xs \<and> (\<forall>k<length xs. f (xs ! k) = Inr (ys ! k))"
proof (induction xs arbitrary: ys)
  case Nil
  then show ?case by simp
next
  case (Cons x xs)
  then obtain y ys' where y: "f x = Inr y" and ys': "mapE f xs = Inr ys'" and e: "ys = y # ys'"
    by (auto split: sum.splits)
  from Cons.IH [OF ys'] y e show ?case
    by (auto simp: nth_Cons')
qed

lemma mapE_upt_InrD:
  assumes "mapE f [0..<n] = Inr ys"
  shows "length ys = n" and "k < n \<Longrightarrow> f k = Inr (ys ! k)"
proof -
  note d = mapE_InrD [OF assms]
  show "length ys = n" using d by simp
  assume k: "k < n"
  then have "f ([0..<n] ! k) = Inr (ys ! k)"
    using d [THEN conjunct2, rule_format, of k] by simp
  then show "f k = Inr (ys ! k)" using k by simp
qed

lemma py_max_Cons: "py_max (x # xs) = Inr (Max (set (x # xs)))"
  by (simp only: py_max.simps Max.set_eq_fold)

lemma py_max_nonempty: "xs \<noteq> [] \<Longrightarrow> py_max xs = Inr (Max (set xs))"
  by (cases xs) (simp, simp only: py_max_Cons)

lemma pad_stroke_row_cases:
  "pad_stroke_row msl sketch j =
     (if length sketch \<le> j then Inr (replicate (msl + 1) end5, 0)
      else if \<not> length (sketch ! j) \<le> msl then Inl AssertionError
      else Inr (start5 # map big_of (sketch ! j) @
                  replicate (msl - length (sketch ! j)) (if length sketch \<le> j + 1 then end5 else eos5),
                length (sketch ! j) + 1))"
  using pad_stroke_row_absent [of sketch j msl] pad_stroke_row_too_long [of j sketch msl]
    pad_stroke_row_present [of j sketch msl]
  by (simp only: linorder_not_le split: if_splits) auto

lemma pad_stroke_minibatch_InrD:
  assumes "pad_stroke_minibatch dl ss j = Inr b"
  shows "length (arr b) = batch_size dl" and "length (seq_len b) = batch_size dl"
    and "\<And>i. i < batch_size dl \<Longrightarrow>
           i < length ss \<and> pad_stroke_row (max_seq_length dl) (ss ! i) j = Inr (arr b ! i, seq_len b ! i)"
proof -
  let ?f = "\<lambda>i. if i < length ss then pad_stroke_row (max_seq_length dl) (ss ! i) j else Inl IndexError"
  from assms obtain rows where rows: "mapE ?f [0..<batch_size dl] = Inr rows"
    and b: "b = \<lparr>arr = map fst rows, seq_len = map snd rows\<rparr>"
    by (auto simp: pad_stroke_minibatch_def split: sum.splits)
  from mapE_upt_InrD(1) [OF rows] have len: "length rows = batch_size dl" .
  have nth: "?f k = Inr (rows ! k)" if "k < batch_size dl" for k
    using mapE_upt_InrD(2) [OF rows that] .
  show "length (arr b) = batch_size dl" "length (seq_len b) = batch_size dl"
    using len b by simp_all
  fix i assume i: "i < batch_size dl"
  from nth [OF i] have "i < length ss" and "pad_stroke_row (max_seq_length dl) (ss ! i) j = Inr (rows ! i)"
    by (auto split: if_splits)
  then show "i < length ss \<and> pad_stroke_row (max_seq_length dl) (ss ! i) j = Inr (arr b ! i, seq_len b ! i)"
    using i len b by simp
qed

lemma pad_stroke_batch_InrD:
  assumes "pad_stroke_batch dl ss = Inr batches"
  shows "ss \<noteq> []" and "length batches = Max (set (map length ss))"
    and "\<And>j. j < length batches \<Longrightarrow> pad_stroke_minibatch dl ss j = Inr (batches ! j)"
proof -
  show ne: "ss \<noteq> []" using assms by (auto simp: pad_stroke_batch_def)
  then have m: "py_max (map length ss) = Inr (Max (set (map length ss)))"
    by (simp add: py_max_nonempty)
  with assms have e: "mapE (pad_stroke_minibatch dl ss) [0..<Max (set (map length ss))] = Inr batches"
    by (simp add: pad_stroke_batch_def)
  from mapE_upt_InrD(1) [OF e] show len: "length batches = Max (set (map length ss))" .
  show "pad_stroke_minibatch dl ss j = Inr (batches ! j)" if "j < length batches" for j
    using mapE_upt_InrD(2) [OF e, of j] that len by simp
qed

lemma pad_stroke_batch_success:
  assumes "ss \<noteq> []" and "batch_size dl \<le> length ss"
    and "\<And>i j. i < batch_size dl \<Longrightarrow> j < length (ss ! i) \<Longrightarrow> length (ss ! i ! j) \<le> max_seq_length dl"
  shows "pad_stroke_batch dl ss =
           Inr (map (\<lambda>j. \<lparr>arr = map (\<lambda>i. fst (row_of (max_seq_length dl) (ss ! i) j)) [0..<batch_size dl],
                         seq_len = map (\<lambda>i. snd (row_of (max_seq_length dl) (ss ! i) j)) [0..<batch_size dl]\<rparr>)
                  [0..<Max (set (map length ss))])"
proof -
  have row: "(if i < length ss then pad_stroke_row (max_seq_length dl) (ss ! i) j else Inl IndexError) =
        Inr (row_of (max_seq_length dl) (ss ! i) j)" if "i \<in> set [0..<batch_size dl]" for i j
    using that assms(2) assms(3) [of i j]
    by (auto simp: pad_stroke_row_cases row_of_def)
  have mb: "pad_stroke_minibatch dl ss j =
      Inr \<lparr>arr = map (\<lambda>i. fst (row_of (max_seq_length dl) (ss ! i) j)) [0..<batch_size dl],
           seq_len = map (\<lambda>i. snd (row_of (max_seq_length dl) (ss ! i) j)) [0..<batch_size dl]\<rparr>" for j
    unfolding pad_stroke_minibatch_def
    by (subst mapE_Inr [where g = "\<lambda>i. row_of (max_seq_length dl) (ss ! i) j"])
       (simp_all only: row sum.case list.map_comp comp_def)
  show ?thesis
    unfolding pad_stroke_batch_def
    by (simp only: py_max_nonempty [of "map length ss"] assms(1) map_is_Nil_conv sum.case not_False_eq_True
        mapE_Inr [of _ "pad_stroke_minibatch dl ss", OF mb])
qed

section \<open>Claims on pad_stroke_batch\<close>

lemma upt_2: "[0..<2] = [0, 1]"
  by (simp add: upt_rec)
lemma upt_3: "[0..<3] = [0, 1, 2]"
  by (simp add: upt_rec)

lemma ex_pad: "pad_stroke_batch ex_dl [ex_A, ex_B] = Inr ex_batches"
proof -
  have m: "Max (set (map length [ex_A, ex_B])) = 3"
    by (simp add: ex_A_def ex_B_def)
  have "pad_stroke_batch ex_dl [ex_A, ex_B] =
           Inr (map (\<lambda>j. \<lparr>arr = map (\<lambda>i. fst (row_of (max_seq_length ex_dl) ([ex_A, ex_B] ! i) j)) [0..<batch_size ex_dl],
                         seq_len = map (\<lambda>i. snd (row_of (max_seq_length ex_dl) ([ex_A, ex_B] ! i) j)) [0..<batch_size ex_dl]\<rparr>)
                  [0..<Max (set (map length [ex_A, ex_B]))])"
    by (rule pad_stroke_batch_success)
       (auto simp: ex_dl_def ex_A_def ex_B_def less_Suc_eq numeral_2_eq_2 numeral_3_eq_3 nth_Cons')
  also have "\<dots> = Inr ex_batches"
    unfolding m
    by (simp add: ex_dl_def upt_2 upt_3 row_of_def ex_A_def ex_B_def ex_batches_def)
       (simp add: eval_nat_numeral)
  finally show ?thesis .
qed

lemma pad_stroke_batch_row:
  assumes "pad_stroke_batch dl ss = Inr batches" and "j < length batches" and "i < batch_size dl"
  shows "i < length ss"
    and "pad_stroke_row (max_seq_length dl) (ss ! i) j = Inr (arr (batches ! j) ! i, seq_len (batches ! j) ! i)"
  using pad_stroke_minibatch_InrD(3) [OF pad_stroke_batch_InrD(3) [OF assms(1,2)] assms(3)]
  by simp_all

lemma pad_stroke_batch_present:
  assumes "pad_stroke_batch dl ss = Inr batches" and "j < length batches" and "i < batch_size dl"
    and "j < length (ss ! i)"
  shows "length (ss ! i ! j) \<le> max_seq_length dl"
    and "arr (batches ! j) ! i =
           start5 # map big_of (ss ! i ! j) @
             replicate (max_seq_length dl - length (ss ! i ! j))
               (if length (ss ! i) \<le> j + 1 then end5 else eos5)"
    and "seq_len (batches ! j) ! i = length (ss ! i ! j) + 1"
  using pad_stroke_batch_row(2) [OF assms(1-3)] assms(4)
  by (simp_all add: pad_stroke_row_cases split: if_splits)

lemma pad_stroke_batch_absent:
  assumes "pad_stroke_batch dl ss = Inr batches" and "j < length batches" and "i < batch_size dl"
    and "length (ss ! i) \<le> j"
  shows "arr (batches ! j) ! i = replicate (max_seq_length dl + 1) end5"
    and "seq_len (batches ! j) ! i = 0"
  using pad_stroke_batch_row(2) [OF assms(1-3)] assms(4)
  by (simp_all add: pad_stroke_row_cases del: replicate_Suc)

lemma unshifted_row_closed:
  "length (sketch ! j) \<le> msl \<Longrightarrow>
   unshifted_row msl sketch j =
     map big_of (sketch ! j) @
       replicate (msl + 1 - length (sketch ! j)) (if length sketch \<le> j + 1 then end5 else eos5)"
  by (simp add: unshifted_row_def Let_def set_stroke5_zeros pad_points del: replicate_Suc)


text \<open>
  Claim C9. Let row \<open>i\<close> of the cohort have a \<open>j\<close>-th pen-stroke of exactly
  \<open>max_seq_length\<close> points. Whenever \<open>pad_stroke_batch\<close> returns, mini-batch \<open>j\<close> is
  among the mini-batches it has built, and in it row \<open>i\<close> got one padding point at index
  \<open>max_seq_length\<close> before the shift; the shift drops that point, so the row is the start
  token followed by all the stroke's points, with no padding point, and the recorded
  length is \<open>max_seq_length + 1\<close>, the length of the row. And \<open>pad_stroke_batch\<close> does
  return when the cohort has \<open>batch_size\<close> sketches and none of their pen-strokes is
  longer than \<open>max_seq_length\<close>.
\<close>

theorem pad_stroke_batch_full_length_row:
  assumes "i < batch_size dl" and "i < length ss"
    and "j < length (ss ! i)" and "length (ss ! i ! j) = max_seq_length dl"
  shows "(\<forall>batches. pad_stroke_batch dl ss = Inr batches \<longrightarrow>
            j < length batches \<and>
            unshifted_row (max_seq_length dl) (ss ! i) j =
              map big_of (ss ! i ! j) @ [if length (ss ! i) \<le> j + 1 then end5 else eos5] \<and>
            arr (batches ! j) ! i = start5 # butlast (unshifted_row (max_seq_length dl) (ss ! i) j) \<and>
            arr (batches ! j) ! i = start5 # map big_of (ss ! i ! j) \<and>
            length (arr (batches ! j) ! i) = max_seq_length dl + 1 \<and>
            seq_len (batches ! j) ! i = max_seq_length dl + 1) \<and>
         (batch_size dl \<le> length ss \<and>
          (\<forall>i'<batch_size dl. \<forall>j'<length (ss ! i'). length (ss ! i' ! j') \<le> max_seq_length dl) \<longrightarrow>
            (\<exists>batches. pad_stroke_batch dl ss = Inr batches))"
proof (intro conjI allI impI)
  fix batches assume p: "pad_stroke_batch dl ss = Inr batches"
  have "length (ss ! i) \<in> set (map length ss)" using assms(2) by simp
  then have "length (ss ! i) \<le> Max (set (map length ss))" by (intro Max_ge) simp_all
  with assms(3) show j: "j < length batches"
    by (simp only: pad_stroke_batch_InrD(2) [OF p])
  show u: "unshifted_row (max_seq_length dl) (ss ! i) j =
          map big_of (ss ! i ! j) @ [if length (ss ! i) \<le> j + 1 then end5 else eos5]"
    using assms(4) unshifted_row_closed [of "ss ! i" j "max_seq_length dl"] by simp
  show a: "arr (batches ! j) ! i = start5 # map big_of (ss ! i ! j)"
    using pad_stroke_batch_present(2) [OF p j assms(1,3)] assms(4) by simp
  show "arr (batches ! j) ! i = start5 # butlast (unshifted_row (max_seq_length dl) (ss ! i) j)"
    by (simp only: a u butlast_snoc)
  show "length (arr (batches ! j) ! i) = max_seq_length dl + 1"
    using assms(4) by (simp add: a)
  show "seq_len (batches ! j) ! i = max_seq_length dl + 1"
    using pad_stroke_batch_present(3) [OF p j assms(1,3)] assms(4) by simp
next
  assume h: "batch_size dl \<le> length ss \<and>
    (\<forall>i'<batch_size dl. \<forall>j'<length (ss ! i'). length (ss ! i' ! j') \<le> max_seq_length dl)"
  have ne: "ss \<noteq> []" using assms(2) by auto
  show "\<exists>batches. pad_stroke_batch dl ss = Inr batches"
    using pad_stroke_batch_success [OF ne, of dl] h by blast
qed

theorem pad_stroke_batch_full_length_row_witness:
  "pad_stroke_batch ex_dl [ex_A, ex_B] = Inr ex_batches \<and>
   length (ex_A ! 2) = max_seq_length ex_dl \<and>
   2 < length ex_batches \<and>
   arr (ex_batches ! 2) ! 0 = start5 # map big_of (ex_A ! 2) \<and>
   length (arr (ex_batches ! 2) ! 0) = 4 \<and>
   seq_len (ex_batches ! 2) ! 0 = 4 \<and>
   (\<exists>batches. pad_stroke_batch ex_dl [ex_A, ex_B] = Inr batches)"
proof -
  have 1: "0 < batch_size ex_dl" by (simp add: ex_dl_def)
  have 2: "0 < length [ex_A, ex_B]" by simp
  have 3: "2 < length ([ex_A, ex_B] ! 0)" by (simp add: ex_A_def)
  have 4: "length ([ex_A, ex_B] ! 0 ! 2) = max_seq_length ex_dl"
    by (simp add: ex_A_def ex_dl_def)
  note t = pad_stroke_batch_full_length_row [OF 1 2 3 4]
  note r = t [THEN conjunct1, rule_format, OF ex_pad]
  have m: "max_seq_length ex_dl + 1 = 4" by (simp add: ex_dl_def)
  have a: "2 < length ex_batches" by (rule r [THEN conjunct1])
  have b: "arr (ex_batches ! 2) ! 0 = start5 # map big_of (ex_A ! 2)"
    using r [THEN conjunct2, THEN conjunct2, THEN conjunct2, THEN conjunct1] by simp
  have c: "length (arr (ex_batches ! 2) ! 0) = 4"
    using r [THEN conjunct2, THEN conjunct2, THEN conjunct2, THEN conjunct2, THEN conjunct1]
    by (simp only: m)
  have d: "seq_len (ex_batches ! 2) ! 0 = 4"
    using r [THEN conjunct2, THEN conjunct2, THEN conjunct2, THEN conjunct2, THEN conjunct2]
    by (simp only: m)
  have e: "\<exists>batches. pad_stroke_batch ex_dl [ex_A, ex_B] = Inr batches"
    using ex_pad by blast
  have l4: "length (ex_A ! 2) = max_seq_length ex_dl" using 4 by simp
  show ?thesis by (intro conjI ex_pad l4 a b c d e)
qed

text \<open>
  Claim C2, amended. For every mini-batch \<open>j\<close> and every row \<open>i\<close> whose sketch has a
  \<open>j\<close>-th pen-stroke, the row is the unshifted row moved right by one point, point 0 is the
  start token, and the recorded length is the stroke's length plus 1. A row whose sketch
  has no \<open>j\<close>-th pen-stroke is not shifted: it is the end-of-sketch point everywhere and its
  recorded length is 0.
\<close>

theorem pad_stroke_batch_start_token:
  assumes "pad_stroke_batch dl ss = Inr batches" and "j < length batches" and "i < batch_size dl"
  shows "(j < length (ss ! i) \<longrightarrow>
            length (arr (batches ! j) ! i) = max_seq_length dl + 1 \<and>
            arr (batches ! j) ! i ! 0 = start5 \<and>
            (\<forall>k<max_seq_length dl.
               arr (batches ! j) ! i ! Suc k = unshifted_row (max_seq_length dl) (ss ! i) j ! k) \<and>
            seq_len (batches ! j) ! i = length (ss ! i ! j) + 1) \<and>
         (length (ss ! i) \<le> j \<longrightarrow>
            arr (batches ! j) ! i = replicate (max_seq_length dl + 1) end5 \<and>
            seq_len (batches ! j) ! i = 0)"
proof (intro conjI impI)
  assume a: "length (ss ! i) \<le> j"
  show "arr (batches ! j) ! i = replicate (max_seq_length dl + 1) end5"
    and "seq_len (batches ! j) ! i = 0"
    using pad_stroke_batch_absent [OF assms a] by simp_all
next
  assume p: "j < length (ss ! i)"
  note r = pad_stroke_batch_present [OF assms p]
  show "length (arr (batches ! j) ! i) = max_seq_length dl + 1"
    using r(1) by (simp add: r(2))
  show "arr (batches ! j) ! i ! 0 = start5"
    by (simp add: r(2))
  show "seq_len (batches ! j) ! i = length (ss ! i ! j) + 1"
    by (rule r(3))
  show "\<forall>k<max_seq_length dl.
          arr (batches ! j) ! i ! Suc k = unshifted_row (max_seq_length dl) (ss ! i) j ! k"
    using r(1) by (simp add: r(2) unshifted_row_closed nth_append del: replicate_Suc)
qed

theorem pad_stroke_batch_start_token_witness:
  "pad_stroke_batch ex_dl [ex_A, ex_B] = Inr ex_batches \<and>
   arr (ex_batches ! 1) ! 0 ! 0 = start5 \<and>
   seq_len (ex_batches ! 1) ! 0 = length (ex_A ! 1) + 1 \<and>
   arr (ex_batches ! 1) ! 1 = replicate (max_seq_length ex_dl + 1) end5 \<and>
   seq_len (ex_batches ! 1) ! 1 = 0"
proof -
  have j: "1 < length ex_batches" by (simp add: ex_batches_def)
  have i0: "0 < batch_size ex_dl" and i1: "1 < batch_size ex_dl" by (simp_all add: ex_dl_def)
  have p: "1 < length ([ex_A, ex_B] ! 0)" by (simp add: ex_A_def)
  have a: "length ([ex_A, ex_B] ! 1) \<le> 1" by (simp add: ex_B_def)
  note t0 = pad_stroke_batch_start_token [OF ex_pad j i0, THEN conjunct1, rule_format, OF p]
  note t1 = pad_stroke_batch_start_token [OF ex_pad j i1, THEN conjunct2, rule_format, OF a]
  have a: "arr (ex_batches ! 1) ! 0 ! 0 = start5"
    using t0 [THEN conjunct2, THEN conjunct1] .
  have b: "seq_len (ex_batches ! 1) ! 0 = length (ex_A ! 1) + 1"
    using t0 [THEN conjunct2, THEN conjunct2, THEN conjunct2] by simp
  have c: "arr (ex_batches ! 1) ! 1 = replicate (max_seq_length ex_dl + 1) end5"
    using t1 [THEN conjunct1] .
  have d: "seq_len (ex_batches ! 1) ! 1 = 0"
    using t1 [THEN conjunct2] .
  show ?thesis
    by (intro conjI ex_pad a b c d)
qed

text \<open>
  Claim C2 as stated says that rows without a \<open>j\<close>-th pen-stroke get the start token and
  the increment too. In mini-batch 1 of the example the second sketch has no stroke left:
  point 0 of its row is the end-of-sketch point, not the start token, and the recorded
  length is 0.
\<close>

theorem pad_stroke_batch_absent_row_counterexample:
  "pad_stroke_batch ex_dl [ex_A, ex_B] = Inr ex_batches \<and>
   length ex_B \<le> 1 \<and>
   arr (ex_batches ! 1) ! 1 ! 0 = end5 \<and> end5 \<noteq> start5 \<and>
   arr (ex_batches ! 1) ! 1 ! 1 = end5 \<and>
   seq_len (ex_batches ! 1) ! 1 = 0"
proof (intro conjI)
  show "pad_stroke_batch ex_dl [ex_A, ex_B] = Inr ex_batches" by (rule ex_pad)
  show "length ex_B \<le> 1" by (simp add: ex_B_def)
  show "arr (ex_batches ! 1) ! 1 ! 0 = end5" by (simp add: ex_batches_def)
  show "end5 \<noteq> start5" by (simp add: end5_def start5_def)
  show "arr (ex_batches ! 1) ! 1 ! 1 = end5" by (simp add: ex_batches_def)
  show "seq_len (ex_batches ! 1) ! 1 = 0" by (simp add: ex_batches_def)
qed

lemma length3E: "length xs = 3 \<Longrightarrow> (\<And>a b c. xs = [a, b, c] \<Longrightarrow> P) \<Longrightarrow> P"
  by (auto simp: length_Suc_conv numeral_3_eq_3)

lemma length1E: "length xs = 1 \<Longrightarrow> (\<And>a. xs = [a] \<Longrightarrow> P) \<Longrightarrow> P"
  by (auto simp: length_Suc_conv)

text \<open>
  Claim C3. A cohort of two sketches with \<open>batch_size = 2\<close>, sketch \<open>A\<close> of 3 pen-strokes
  and sketch \<open>B\<close> of 1 pen-stroke, none longer than \<open>max_seq_length\<close>: \<open>pad_stroke_batch\<close>
  returns exactly 3 mini-batches. Mini-batch 0 holds the first stroke of both sketches
  after the start token. In mini-batches 1 and 2 the row of \<open>B\<close> is the end-of-sketch point
  everywhere with recorded length 0. After the stroke data of \<open>A\<close> the row carries the
  end-of-stroke point in mini-batches 0 and 1 and the end-of-sketch point in mini-batch 2.
\<close>

theorem pad_stroke_batch_scenario:
  assumes "batch_size dl = 2" and "length A = 3" and "length B = 1"
    and "\<forall>s\<in>set A \<union> set B. length s \<le> max_seq_length dl"
  shows "\<exists>b0 b1 b2.
           pad_stroke_batch dl [A, B] = Inr [b0, b1, b2] \<and>
           arr b0 = [start5 # map big_of (A ! 0) @ replicate (max_seq_length dl - length (A ! 0)) eos5,
                     start5 # map big_of (B ! 0) @ replicate (max_seq_length dl - length (B ! 0)) end5] \<and>
           seq_len b0 = [length (A ! 0) + 1, length (B ! 0) + 1] \<and>
           arr b1 = [start5 # map big_of (A ! 1) @ replicate (max_seq_length dl - length (A ! 1)) eos5,
                     replicate (max_seq_length dl + 1) end5] \<and>
           seq_len b1 = [length (A ! 1) + 1, 0] \<and>
           arr b2 = [start5 # map big_of (A ! 2) @ replicate (max_seq_length dl - length (A ! 2)) end5,
                     replicate (max_seq_length dl + 1) end5] \<and>
           seq_len b2 = [length (A ! 2) + 1, 0]"
proof -
  from assms(2) obtain a0 a1 a2 where A: "A = [a0, a1, a2]" by (rule length3E)
  from assms(3) obtain b where B: "B = [b]" by (rule length1E)
  have m: "Max (set (map length [A, B])) = 3"
    by (simp add: A B)
  have "pad_stroke_batch dl [A, B] =
           Inr (map (\<lambda>j. \<lparr>arr = map (\<lambda>i. fst (row_of (max_seq_length dl) ([A, B] ! i) j)) [0..<batch_size dl],
                         seq_len = map (\<lambda>i. snd (row_of (max_seq_length dl) ([A, B] ! i) j)) [0..<batch_size dl]\<rparr>)
                  [0..<Max (set (map length [A, B]))])"
    using assms(1,4)
    by (intro pad_stroke_batch_success)
       (auto simp: A B less_Suc_eq numeral_2_eq_2 numeral_3_eq_3 nth_Cons')
  then show ?thesis
    unfolding m assms(1)
    by (simp add: upt_2 upt_3 row_of_def A B del: replicate_Suc)
qed

theorem pad_stroke_batch_scenario_witness:
  "\<exists>b0 b1 b2.
     pad_stroke_batch ex_dl [ex_A, ex_B] = Inr [b0, b1, b2] \<and>
     arr b0 = [start5 # map big_of (ex_A ! 0) @ replicate (max_seq_length ex_dl - length (ex_A ! 0)) eos5,
               start5 # map big_of (ex_B ! 0) @ replicate (max_seq_length ex_dl - length (ex_B ! 0)) end5] \<and>
     seq_len b0 = [length (ex_A ! 0) + 1, length (ex_B ! 0) + 1] \<and>
     arr b1 = [start5 # map big_of (ex_A ! 1) @ replicate (max_seq_length ex_dl - length (ex_A ! 1)) eos5,
               replicate (max_seq_length ex_dl + 1) end5] \<and>
     seq_len b1 = [length (ex_A ! 1) + 1, 0] \<and>
     arr b2 = [start5 # map big_of (ex_A ! 2) @ replicate (max_seq_length ex_dl - length (ex_A ! 2)) end5,
               replicate (max_seq_length ex_dl + 1) end5] \<and>
     seq_len b2 = [length (ex_A ! 2) + 1, 0]"
proof -
  have 1: "batch_size ex_dl = 2" by (simp add: ex_dl_def)
  have 2: "length ex_A = 3" by (simp add: ex_A_def)
  have 3: "length ex_B = 1" by (simp add: ex_B_def)
  have 4: "\<forall>s\<in>set ex_A \<union> set ex_B. length s \<le> max_seq_length ex_dl"
    by (simp add: ex_A_def ex_B_def ex_dl_def)
  show ?thesis by (rule pad_stroke_batch_scenario [OF 1 2 3 4])
qed

lemma one_hot_big_of: "pen_lift p = 0 \<or> pen_lift p = 1 \<Longrightarrow> one_hot (big_of p)"
  by (auto simp: one_hot_def big_of_def)

lemma one_hot_consts: "one_hot start5" "one_hot end5" "one_hot eos5"
  by (simp_all add: one_hot_def start5_def end5_def eos5_def)

lemma row_of_shape:
  assumes "j < length sketch \<Longrightarrow> length (sketch ! j) \<le> msl"
    and "j < length sketch \<Longrightarrow> \<forall>p\<in>set (sketch ! j). pen_lift p = 0 \<or> pen_lift p = 1"
  shows "length (fst (row_of msl sketch j)) = msl + 1"
    and "\<forall>r\<in>set (fst (row_of msl sketch j)). one_hot r"
  using assms
  by (auto simp: row_of_def one_hot_consts one_hot_big_of simp del: replicate_Suc)

text \<open>
  Claim C4. For a cohort of sketches whose pen_lift values are 0 or 1 and whose pen-strokes
  have at most \<open>max_seq_length\<close> points, \<open>pad_stroke_batch\<close> returns its mini-batches, each
  an array of \<open>batch_size\<close> rows of \<open>max_seq_length + 1\<close> points, and in every point exactly
  one of the three pen channels is 1 and the other two are 0.
\<close>

theorem pad_stroke_batch_one_hot:
  assumes "ss \<noteq> []" and "batch_size dl \<le> length ss"
    and "\<forall>sketch\<in>set ss. \<forall>stroke\<in>set sketch.
           length stroke \<le> max_seq_length dl \<and> (\<forall>p\<in>set stroke. pen_lift p = 0 \<or> pen_lift p = 1)"
  shows "\<exists>batches.
           pad_stroke_batch dl ss = Inr batches \<and>
           (\<forall>b\<in>set batches.
              length (arr b) = batch_size dl \<and>
              (\<forall>row\<in>set (arr b).
                 length row = max_seq_length dl + 1 \<and> (\<forall>r\<in>set row. one_hot r)))"
proof -
  have v: "length (ss ! i ! j) \<le> max_seq_length dl \<and>
           (\<forall>p\<in>set (ss ! i ! j). pen_lift p = 0 \<or> pen_lift p = 1)"
    if "i < batch_size dl" and "j < length (ss ! i)" for i j
  proof -
    have "ss ! i \<in> set ss" using that(1) assms(2) by simp
    moreover have "ss ! i ! j \<in> set (ss ! i)" using that(2) by simp
    ultimately show ?thesis using assms(3) by blast
  qed
  have e: "pad_stroke_batch dl ss =
           Inr (map (\<lambda>j. \<lparr>arr = map (\<lambda>i. fst (row_of (max_seq_length dl) (ss ! i) j)) [0..<batch_size dl],
                         seq_len = map (\<lambda>i. snd (row_of (max_seq_length dl) (ss ! i) j)) [0..<batch_size dl]\<rparr>)
                  [0..<Max (set (map length ss))])"
    using assms(1,2) v by (intro pad_stroke_batch_success) simp_all
  have r: "length (fst (row_of (max_seq_length dl) (ss ! i) j)) = max_seq_length dl + 1 \<and>
           (\<forall>r\<in>set (fst (row_of (max_seq_length dl) (ss ! i) j)). one_hot r)"
    if "i < batch_size dl" for i j
    using row_of_shape [of j "ss ! i" "max_seq_length dl"] v [OF that, of j] by blast
  show ?thesis
    unfolding e using r by (auto simp del: replicate_Suc)
qed


theorem pad_stroke_batch_one_hot_witness:
  "pad_stroke_batch ex_dl [ex_A, ex_B] = Inr ex_batches \<and>
   length (arr (ex_batches ! 1)) = batch_size ex_dl \<and>
   length (arr (ex_batches ! 1) ! 0) = max_seq_length ex_dl + 1 \<and>
   one_hot (arr (ex_batches ! 1) ! 0 ! 1) \<and>
   one_hot (arr (ex_batches ! 1) ! 1 ! 0)"
proof -
  have 1: "[ex_A, ex_B] \<noteq> []" by simp
  have 2: "batch_size ex_dl \<le> length [ex_A, ex_B]" by (simp add: ex_dl_def)
  have 3: "\<forall>sketch\<in>set [ex_A, ex_B]. \<forall>stroke\<in>set sketch.
             length stroke \<le> max_seq_length ex_dl \<and>
             (\<forall>p\<in>set stroke. pen_lift p = 0 \<or> pen_lift p = 1)"
    by (simp add: ex_A_def ex_B_def ex_dl_def pt_def)
  from pad_stroke_batch_one_hot [OF 1 2 3] ex_pad
  have h: "\<forall>b\<in>set ex_batches.
              length (arr b) = batch_size ex_dl \<and>
              (\<forall>row\<in>set (arr b).
                 length row = max_seq_length ex_dl + 1 \<and> (\<forall>r\<in>set row. one_hot r))"
    by simp
  have b: "ex_batches ! 1 \<in> set ex_batches" by (simp add: ex_batches_def)
  have r0: "arr (ex_batches ! 1) ! 0 \<in> set (arr (ex_batches ! 1))"
    and r1: "arr (ex_batches ! 1) ! 1 \<in> set (arr (ex_batches ! 1))"
    by (simp_all add: ex_batches_def)
  have p0: "arr (ex_batches ! 1) ! 0 ! 1 \<in> set (arr (ex_batches ! 1) ! 0)"
    and p1: "arr (ex_batches ! 1) ! 1 ! 0 \<in> set (arr (ex_batches ! 1) ! 1)"
    by (simp_all add: ex_batches_def)
  from h b r0 r1 p0 p1 ex_pad show ?thesis by blast
qed

section \<open>preprocess in closed form\<close>

lemma np_split_from_nonempty: "np_split_from st ary inds \<noteq> []"
  by (cases inds) simp_all

lemma split_sketch_nonempty: "split_sketch data \<noteq> []"
  by (simp add: split_sketch_def np_split_def np_split_from_nonempty)

lemma get_max_stroke_len_Inr:
  "get_max_stroke_len sketch = Inr (Max (set (map length (split_sketch sketch))))"
  unfolding get_max_stroke_len_def
  by (rule py_max_nonempty) (simp add: split_sketch_nonempty)

lemma kept_iff: "kept dl sketch \<longleftrightarrow> Max (set (map length (split_sketch sketch))) \<le> max_seq_length dl"
  by (simp add: kept_def get_max_stroke_len_Inr)

lemma preprocess_loop_closed:
  "preprocess_loop dl sketches = Inr (map (clamp_scale dl) (filter (kept dl) sketches))"
  by (induction sketches) (simp_all add: get_max_stroke_len_Inr kept_iff)

lemma is_argsortD:
  assumes "is_argsort keys idx"
  shows "distinct idx" and "set idx = {..<length keys}"
    and "sorted (map (\<lambda>i. keys ! i) idx)" and "length idx = length keys"
proof -
  show d: "distinct idx" and s: "set idx = {..<length keys}"
    and "sorted (map (\<lambda>i. keys ! i) idx)"
    using assms by (simp_all add: is_argsort_def)
  show "length idx = length keys"
    using distinct_card [OF d] s by simp
qed

lemma is_argsortI:
  assumes "distinct idx" and "length idx = length keys" and "\<forall>i\<in>set idx. i < length keys"
    and "sorted (map (\<lambda>i. keys ! i) idx)"
  shows "is_argsort keys idx"
proof -
  have sub: "set idx \<subseteq> {..<length keys}" using assms(3) by auto
  have "card (set idx) = card {..<length keys}"
    using distinct_card [OF assms(1)] assms(2) by simp
  with sub have "set idx = {..<length keys}"
    by (intro card_subset_eq) simp_all
  with assms(1,4) show ?thesis by (simp add: is_argsort_def)
qed

lemma length_clamp_scale [simp]: "length (clamp_scale dl sketch) = length sketch"
  by (simp add: clamp_scale_def)

lemma preprocess_closed:
  assumes "is_argsort (map length (filter (kept dl) sketches)) idx" and "0 < batch_size dl"
  shows "preprocess idx dl sketches =
           Inr (dl\<lparr>strokes := map (\<lambda>i. map (clamp_scale dl) (filter (kept dl) sketches) ! i) idx,
                   num_batches := length (filter (kept dl) sketches) div batch_size dl\<rparr>)"
proof -
  let ?raw = "map (clamp_scale dl) (filter (kept dl) sketches)"
  let ?keys = "map length ?raw"
  have k: "map length ?raw = map length (filter (kept dl) sketches)"
    by (simp add: comp_def)
  note c = is_argsortD [OF assms(1)]
  have len: "length idx = length ?raw"
    using c(4) by simp
  have lt: "idx ! i < length ?raw" if "i < length ?raw" for i
  proof -
    have "idx ! i \<in> set idx" using that len by simp
    then show ?thesis using c(2) by simp
  qed
  have m: "mapE (\<lambda>i. if i < length idx \<and> idx ! i < length ?raw
                     then Inr (?raw ! (idx ! i)) else Inl IndexError)
             [0..<length ?keys] = Inr (map (\<lambda>i. ?raw ! (idx ! i)) [0..<length ?keys])"
    by (rule mapE_Inr) (use len lt in auto)
  have e: "map (\<lambda>i. ?raw ! (idx ! i)) [0..<length ?keys] = map (\<lambda>i. ?raw ! i) idx"
    using len by (intro nth_equalityI) simp_all
  show ?thesis
    using assms(2)
    by (simp only: preprocess_def preprocess_loop_closed sum.case Let_def m e)
       (simp add: comp_def)
qed

lemma upt_1: "[0..<1] = [0]"
  by simp
lemma upt_4: "[0..<4] = [0, 1, 2, 3]"
  by (simp add: upt_rec)

lemma ex_split:
  "split_sketch s_two = [[pt 1 2 0, pt 3 4 1], [pt 5 6 1]]"
  "split_sketch s_long = [s_long]"
  "split_sketch s_one = [s_one]"
  "split_sketch s_other = [s_other]"
  by (simp_all add: split_sketch_def where_lift_def np_split_def s_two_def s_long_def s_one_def
      s_other_def upt_1 upt_3 upt_4 pt_def)

lemma ex_kept:
  "kept ex_dl s_two" "\<not> kept ex_dl s_long" "kept ex_dl s_one" "kept ex_dl s_other"
proof -
  have l: "length s_long = 4" "length s_one = 1" "length s_other = 1"
    by (simp_all add: s_long_def s_one_def s_other_def)
  have m: "max_seq_length ex_dl = 3" by (simp add: ex_dl_def)
  show "kept ex_dl s_two" "\<not> kept ex_dl s_long" "kept ex_dl s_one" "kept ex_dl s_other"
    by (simp_all add: kept_iff ex_split l m)
qed

lemma ex_clamp_scale:
  "clamp_scale ex_dl s_two = s_two" "clamp_scale ex_dl s_one = s_one"
  "clamp_scale ex_dl s_other = s_other"
  by (simp_all add: clamp_scale_def ex_dl_def s_two_def s_one_def s_other_def pt_def)

lemma ex_preprocess:
  "preprocess [1, 0] ex_dl [s_two, s_long, s_one] =
     Inr (ex_dl\<lparr>strokes := [s_one, s_two], num_batches := 1\<rparr>)"
proof -
  have b: "0 < batch_size ex_dl" by (simp add: ex_dl_def)
  have f: "filter (kept ex_dl) [s_two, s_long, s_one] = [s_two, s_one]"
    by (simp add: ex_kept)
  have a: "is_argsort (map length (filter (kept ex_dl) [s_two, s_long, s_one])) [1, 0]"
    unfolding f by (rule is_argsortI) (simp_all add: s_two_def s_one_def)
  show ?thesis
    unfolding preprocess_closed [OF a b]
    by (simp add: ex_kept ex_clamp_scale) (simp add: ex_dl_def)
qed

lemma clamp_scale_pen_lift:
  "map pen_lift (clamp_scale dl s) = map (\<lambda>p. max (min (pen_lift p) (limit dl)) (- limit dl)) s"
  by (simp add: clamp_scale_def comp_def)

lemma clamp_scale_pen_lift_unchanged:
  assumes "1 \<le> limit dl" and "\<forall>p\<in>set s. pen_lift p = 0 \<or> pen_lift p = 1"
  shows "map pen_lift (clamp_scale dl s) = map pen_lift s"
  unfolding clamp_scale_pen_lift using assms by (intro map_cong refl) auto

section \<open>augment_strokes\<close>

lemma groups_ok_snoc:
  "groups_ok s (gs @ [grp]) \<longleftrightarrow>
     groups_ok s gs \<and> grp \<noteq> [] \<and> (1 < length grp \<longrightarrow> (\<forall>p\<in>set grp. pen_lift p = 0)) \<and>
     ((if gs = [] then s else pen_lift (last (last gs)) = 1) \<longrightarrow> length grp = 1)"
  by (induction gs arbitrary: s) auto

lemma merge_group_single [simp]: "merge_group [c] = c"
  by (simp add: merge_group_def)

lemma merge_group_snoc:
  "grp \<noteq> [] \<Longrightarrow>
   merge_group (grp @ [c]) =
     (merge_group grp)\<lparr>dx := dx (merge_group grp) + dx c, dy := dy (merge_group grp) + dy c\<rparr>"
  by (simp add: merge_group_def)

lemma pen_lift_merge_group [simp]: "pen_lift (merge_group grp) = pen_lift (hd grp)"
  by (simp add: merge_group_def)

lemma group_lifts:
  assumes "grp \<noteq> []" and "1 < length grp \<longrightarrow> (\<forall>p\<in>set grp. pen_lift p = 0)"
  shows "pen_lift (last grp) = pen_lift (hd grp)"
    and "pen_lift (hd grp) = 0 \<Longrightarrow> \<forall>p\<in>set grp. pen_lift p = 0"
proof -
  show "pen_lift (last grp) = pen_lift (hd grp)"
  proof (cases "1 < length grp")
    case True
    with assms show ?thesis by (simp add: hd_in_set)
  next
    case False
    with assms(1) obtain p where "grp = [p]"
      by (cases grp) auto
    then show ?thesis by simp
  qed
  assume z: "pen_lift (hd grp) = 0"
  show "\<forall>p\<in>set grp. pen_lift p = 0"
  proof (cases "1 < length grp")
    case True
    with assms show ?thesis by simp
  next
    case False
    with assms(1) obtain p where "grp = [p]"
      by (cases grp) auto
    then show ?thesis using z by simp
  qed
qed


lemma augment_step_emit:
  assumes "aug_inv gs st"
    and "\<not> (pen_lift c = 0 \<and> pen_lift (a_prev_stroke st) = 0 \<and>
            (if pen_lift c = 1 \<or> pen_lift (a_prev_stroke st) = 1 then 0 else a_count st + 1) > 2 \<and>
            u < prob)"
  shows "aug_inv (gs @ [[c]]) (augment_step prob st c u)"
proof -
  let ?st' = "augment_step prob st c u"
  from assms(2) have st': "?st' = st\<lparr>a_count := (if pen_lift c = 1 \<or> pen_lift (a_prev_stroke st) = 1 then 0 else a_count st + 1),
       a_stroke := c, a_prev_stroke := c, a_result := a_result st @ [c]\<rparr>"
    unfolding augment_step_def Let_def by (simp only: if_False)
  from assms(1) have ok: "groups_ok True gs" and res: "a_result st = map merge_group gs"
    and emp: "gs = [] \<Longrightarrow> pen_lift (a_prev_stroke st) = 1"
    and prev: "gs \<noteq> [] \<Longrightarrow> a_prev_stroke st = merge_group (last gs)"
    by (simp_all add: aug_inv_def)
  have ok': "groups_ok True (gs @ [[c]])"
    using ok by (simp add: groups_ok_snoc)
  have cnt: "a_count ?st' = 0"
    if "length (gs @ [[c]]) = 1 \<or> pen_lift (last (last (butlast (gs @ [[c]])))) = 1"
  proof (cases "gs = []")
    case True
    then show ?thesis using emp by (simp add: st')
  next
    case False
    with that have l: "pen_lift (last (last gs)) = 1" by simp
    from False obtain gs0 grp where gs: "gs = gs0 @ [grp]"
      by (metis rev_exhaust)
    from ok have g: "grp \<noteq> []" "1 < length grp \<longrightarrow> (\<forall>p\<in>set grp. pen_lift p = 0)"
      by (simp_all add: gs groups_ok_snoc)
    from group_lifts(1) [OF g] l have "pen_lift (hd grp) = 1"
      by (simp add: gs)
    then have "pen_lift (a_prev_stroke st) = 1"
      using prev [OF False] by (simp add: gs)
    then show ?thesis by (simp add: st')
  qed
  show ?thesis
    unfolding aug_inv_def
  proof (intro conjI impI)
    show "groups_ok True (gs @ [[c]])" by (rule ok')
    show "a_result ?st' = map merge_group (gs @ [[c]])"
      by (simp add: st' res)
    show "a_stroke ?st' = merge_group (last (gs @ [[c]]))"
      by (simp add: st')
    show "a_prev_stroke ?st' = merge_group (last (gs @ [[c]]))"
      by (simp add: st')
    show "pen_lift (a_prev_stroke ?st') = 1" if "gs @ [[c]] = []"
      using that by simp
    show "a_count ?st' = 0"
      if "length (gs @ [[c]]) = 1 \<or> pen_lift (last (last (butlast (gs @ [[c]])))) = 1"
      using that by (rule cnt)
  qed
qed

lemma augment_step_merge:
  assumes "aug_inv gs st"
    and "pen_lift c = 0 \<and> pen_lift (a_prev_stroke st) = 0 \<and>
            (if pen_lift c = 1 \<or> pen_lift (a_prev_stroke st) = 1 then 0 else a_count st + 1) > 2 \<and>
            u < prob"
  shows "\<exists>gs0 grp. gs = gs0 @ [grp] \<and> aug_inv (gs0 @ [grp @ [c]]) (augment_step prob st c u)"
proof -
  let ?st' = "augment_step prob st c u"
  from assms(2) have c0: "pen_lift c = 0" and p0: "pen_lift (a_prev_stroke st) = 0"
    and cnt: "2 \<le> a_count st"
    by (simp_all split: if_splits)
  from assms(1) have ok: "groups_ok True gs" and res: "a_result st = map merge_group gs"
    and emp: "gs = [] \<Longrightarrow> pen_lift (a_prev_stroke st) = 1"
    and str: "gs \<noteq> [] \<Longrightarrow> a_stroke st = merge_group (last gs)"
    and prev: "gs \<noteq> [] \<Longrightarrow> a_prev_stroke st = merge_group (last gs)"
    and start: "gs \<noteq> [] \<Longrightarrow> length gs = 1 \<or> pen_lift (last (last (butlast gs))) = 1 \<Longrightarrow> a_count st = 0"
    by (simp_all add: aug_inv_def)
  have ne: "gs \<noteq> []" using emp p0 by auto
  then obtain gs0 grp where gs: "gs = gs0 @ [grp]"
    by (metis rev_exhaust)
  from ok have ok0: "groups_ok True gs0"
    and g: "grp \<noteq> []" "1 < length grp \<longrightarrow> (\<forall>p\<in>set grp. pen_lift p = 0)"
    by (simp_all add: gs groups_ok_snoc)
  have nostart: "\<not> (length gs = 1 \<or> pen_lift (last (last (butlast gs))) = 1)"
    using start [OF ne] cnt by auto
  have h0: "pen_lift (hd grp) = 0"
    using prev [OF ne] p0 by (simp add: gs)
  have all0: "\<forall>p\<in>set grp. pen_lift p = 0"
    by (rule group_lifts(2) [OF g h0])
  let ?stroke = "(a_stroke st)\<lparr>dx := dx (a_stroke st) + dx c, dy := dy (a_stroke st) + dy c\<rparr>"
  have rne: "a_result st \<noteq> []" using res ne by simp
  have st': "?st' = st\<lparr>a_count := a_count st + 1, a_stroke := ?stroke, a_prev_stroke := ?stroke,
                       a_result := butlast (a_result st) @ [?stroke]\<rparr>"
    unfolding augment_step_def Let_def using assms(2) rne c0 p0 by simp
  have ms: "?stroke = merge_group (grp @ [c])"
    using str [OF ne] by (simp add: gs merge_group_snoc [OF g(1)])
  have ok': "groups_ok True (gs0 @ [grp @ [c]])"
    using ok0 all0 c0 nostart by (auto simp: groups_ok_snoc gs)
  have "aug_inv (gs0 @ [grp @ [c]]) ?st'"
    unfolding aug_inv_def
  proof (intro conjI impI)
    show "groups_ok True (gs0 @ [grp @ [c]])" by (rule ok')
    show "a_result ?st' = map merge_group (gs0 @ [grp @ [c]])"
      by (simp add: st' res gs ms butlast_append)
    show "a_stroke ?st' = merge_group (last (gs0 @ [grp @ [c]]))"
      by (simp add: st' ms)
    show "a_prev_stroke ?st' = merge_group (last (gs0 @ [grp @ [c]]))"
      by (simp add: st' ms)
    show "pen_lift (a_prev_stroke ?st') = 1" if "gs0 @ [grp @ [c]] = []"
      using that by simp
    show "a_count ?st' = 0"
      if "length (gs0 @ [grp @ [c]]) = 1 \<or> pen_lift (last (last (butlast (gs0 @ [grp @ [c]])))) = 1"
      using that nostart by (simp add: gs)
  qed
  with gs show ?thesis by blast
qed

lemma augment_step_inv:
  assumes "aug_inv gs st"
  shows "\<exists>gs'. concat gs' = concat gs @ [c] \<and> aug_inv gs' (augment_step prob st c u)"
proof (cases "pen_lift c = 0 \<and> pen_lift (a_prev_stroke st) = 0 \<and>
            (if pen_lift c = 1 \<or> pen_lift (a_prev_stroke st) = 1 then 0 else a_count st + 1) > 2 \<and>
            u < prob")
  case True
  from augment_step_merge [OF assms True] obtain gs0 grp
    where "gs = gs0 @ [grp]" and "aug_inv (gs0 @ [grp @ [c]]) (augment_step prob st c u)"
    by blast
  then show ?thesis by (intro exI [of _ "gs0 @ [grp @ [c]]"]) simp
next
  case False
  from augment_step_emit [OF assms False]
  show ?thesis by (intro exI [of _ "gs @ [[c]]"]) simp
qed

lemma augment_loop_inv:
  assumes "aug_inv gs st"
  shows "\<exists>gs'. concat gs' = concat gs @ cs \<and> aug_inv gs' (fst (augment_loop prob cs g st)) \<and>
           snd (augment_loop prob cs g st) = (\<lambda>n. g (n + length cs))"
  using assms
proof (induction cs arbitrary: gs st g)
  case Nil
  then show ?case by (intro exI [of _ gs]) simp
next
  case (Cons c cs)
  from augment_step_inv [OF Cons.prems, of c prob "g 0"] obtain gs1
    where c1: "concat gs1 = concat gs @ [c]" and i1: "aug_inv gs1 (augment_step prob st c (g 0))"
    by blast
  from Cons.IH [OF i1, of "\<lambda>n. g (Suc n)"] obtain gs'
    where "concat gs' = concat gs1 @ cs"
      and "aug_inv gs' (fst (augment_loop prob cs (\<lambda>n. g (Suc n)) (augment_step prob st c (g 0))))"
      and "snd (augment_loop prob cs (\<lambda>n. g (Suc n)) (augment_step prob st c (g 0))) =
             (\<lambda>n. g (Suc (n + length cs)))"
    by blast
  then show ?case
    using c1 by (intro exI [of _ gs']) (simp add: draw_def)
qed

lemma aug_inv_init: "aug_inv [] aug_init"
  by (simp add: aug_inv_def aug_init_def)

lemma augment_strokes_groups:
  "\<exists>gs. concat gs = data \<and> groups_ok True gs \<and>
        fst (augment_strokes data prob g) = map merge_group gs \<and>
        snd (augment_strokes data prob g) = (\<lambda>n. g (n + length data))"
proof -
  from augment_loop_inv [OF aug_inv_init, of data prob g] obtain gs
    where "concat gs = data" and "aug_inv gs (fst (augment_loop prob data g aug_init))"
      and "snd (augment_loop prob data g aug_init) = (\<lambda>n. g (n + length data))"
    by auto
  then show ?thesis
    by (intro exI [of _ gs]) (simp add: augment_strokes_def aug_inv_def split_beta)
qed


lemma groups_okD:
  assumes "groups_ok s gs"
  shows "\<forall>grp\<in>set gs. grp \<noteq> [] \<and> (1 < length grp \<longrightarrow> (\<forall>p\<in>set grp. pen_lift p = 0))"
    and "s \<Longrightarrow> gs \<noteq> [] \<Longrightarrow> length (hd gs) = 1"
    and "\<forall>k. Suc k < length gs \<longrightarrow> pen_lift (last (gs ! k)) = 1 \<longrightarrow> length (gs ! Suc k) = 1"
  using assms
proof (induction gs arbitrary: s)
  case Nil
  {
    case 1 show ?case by simp
  next
    case 2 then show ?case by simp
  next
    case 3 show ?case by simp
  }
next
  case (Cons grp gs)
  {
    case 1
    then show ?case using Cons.IH(1) [of "pen_lift (last grp) = 1"] by simp
  next
    case 2
    then show ?case by simp
  next
    case 3
    then have ok: "groups_ok (pen_lift (last grp) = 1) gs" by simp
    show ?case
    proof (intro allI impI)
      fix k assume k: "Suc k < length (grp # gs)" and l: "pen_lift (last ((grp # gs) ! k)) = 1"
      show "length ((grp # gs) ! Suc k) = 1"
      proof (cases k)
        case 0
        from k have ne: "gs \<noteq> []" by auto
        from l 0 have "pen_lift (last grp) = 1" by simp
        from Cons.IH(2) [OF this ne ok] have "length (hd gs) = 1" .
        then show ?thesis using 0 ne by (simp add: hd_conv_nth)
      next
        case (Suc k')
        with k l Cons.IH(3) [OF ok] show ?thesis by simp
      qed
    qed
  }
qed

lemma group_lift_single:
  assumes "grp \<noteq> []" and "1 < length grp \<longrightarrow> (\<forall>p\<in>set grp. pen_lift p = 0)"
    and "p \<in> set grp" and "pen_lift p = 1"
  shows "grp = [p]"
proof -
  from assms(2-4) have "\<not> 1 < length grp" by auto
  with assms(1) obtain q where "grp = [q]" by (cases grp) auto
  with assms(3) show ?thesis by simp
qed

text \<open>
  Claim C7. For every stroke-3 sequence, every \<open>prob\<close> and every sequence of uniform draws,
  the output of \<open>augment_strokes\<close> is the input cut into consecutive groups, one output point
  per group: the group's first point with the offsets of the dropped points of the group
  added to it. A point with pen_lift 1 (the last point of a pen-stroke) is a group alone,
  and so is the first point of every pen-stroke; a group of several points has no pen-lift
  in it, so no point is merged into a point of another pen-stroke.
\<close>

theorem augment_strokes_keeps_stroke_ends:
  "\<exists>gs. concat gs = data \<and>
        fst (augment_strokes data prob g) = map merge_group gs \<and>
        (\<forall>grp\<in>set gs. grp \<noteq> [] \<and>
           (\<forall>p\<in>set grp. pen_lift p = 1 \<longrightarrow> grp = [p]) \<and>
           (1 < length grp \<longrightarrow> (\<forall>p\<in>set grp. pen_lift p = 0))) \<and>
        (gs \<noteq> [] \<longrightarrow> length (hd gs) = 1) \<and>
        (\<forall>k. Suc k < length gs \<longrightarrow> pen_lift (last (gs ! k)) = 1 \<longrightarrow> length (gs ! Suc k) = 1)"
proof -
  from augment_strokes_groups [of data prob g] obtain gs
    where c: "concat gs = data" and ok: "groups_ok True gs"
      and r: "fst (augment_strokes data prob g) = map merge_group gs"
    by blast
  note d = groups_okD [OF ok]
  have "\<forall>grp\<in>set gs. grp \<noteq> [] \<and>
           (\<forall>p\<in>set grp. pen_lift p = 1 \<longrightarrow> grp = [p]) \<and>
           (1 < length grp \<longrightarrow> (\<forall>p\<in>set grp. pen_lift p = 0))"
    using d(1) group_lift_single by blast
  moreover have "gs \<noteq> [] \<longrightarrow> length (hd gs) = 1"
    using d(2) by simp
  ultimately show ?thesis
    using c r d(3) by (intro exI [of _ gs]) blast
qed

lemma ex_augment:
  "fst (augment_strokes ex_data 1 (\<lambda>n. 0)) = [pt 1 0 0, pt 2 0 0, pt 12 0 0, pt 6 0 1, pt 7 0 1]"
  by (simp add: augment_strokes_def aug_init_def augment_step_def draw_def Let_def pt_def
      ex_data_def)

theorem augment_strokes_keeps_stroke_ends_witness:
  "fst (augment_strokes ex_data 1 (\<lambda>n. 0)) = [pt 1 0 0, pt 2 0 0, pt 12 0 0, pt 6 0 1, pt 7 0 1] \<and>
   (\<exists>gs. concat gs = ex_data \<and>
        fst (augment_strokes ex_data 1 (\<lambda>n. 0)) = map merge_group gs \<and>
        (\<forall>grp\<in>set gs. grp \<noteq> [] \<and>
           (\<forall>p\<in>set grp. pen_lift p = 1 \<longrightarrow> grp = [p]) \<and>
           (1 < length grp \<longrightarrow> (\<forall>p\<in>set grp. pen_lift p = 0))) \<and>
        (gs \<noteq> [] \<longrightarrow> length (hd gs) = 1) \<and>
        (\<forall>k. Suc k < length gs \<longrightarrow> pen_lift (last (gs ! k)) = 1 \<longrightarrow> length (gs ! Suc k) = 1))"
  by (intro conjI ex_augment augment_strokes_keeps_stroke_ends [of ex_data 1 "\<lambda>n. 0"])

section \<open>Piece lengths of split_sketch\<close>

lemma seglens_no_lift: "True \<notin> set bs \<Longrightarrow> seglens n bs = [n + length bs]"
  by (induction bs arbitrary: n) auto

lemma lift_in_drop:
  "True \<in> set (map is_lift (drop m ary)) \<longleftrightarrow> filter (\<lambda>i. pen_lift (ary ! i) = 1) [m..<length ary] \<noteq> []"
proof -
  have "True \<in> set (map is_lift (drop m ary)) \<longleftrightarrow> (\<exists>i. m \<le> i \<and> i < length ary \<and> is_lift (ary ! i))"
  proof
    assume "True \<in> set (map is_lift (drop m ary))"
    then obtain p where "p \<in> set (drop m ary)" and p: "is_lift p" by auto
    then obtain k where "k < length (drop m ary)" and "drop m ary ! k = p"
      by (auto simp: in_set_conv_nth)
    then have "m \<le> m + k \<and> m + k < length ary \<and> ary ! (m + k) = p" by auto
    with p show "\<exists>i. m \<le> i \<and> i < length ary \<and> is_lift (ary ! i)" by blast
  next
    assume "\<exists>i. m \<le> i \<and> i < length ary \<and> is_lift (ary ! i)"
    then obtain i where i: "m \<le> i" "i < length ary" "is_lift (ary ! i)" by blast
    then have "drop m ary ! (i - m) = ary ! i" and "i - m < length (drop m ary)" by auto
    then have "ary ! i \<in> set (drop m ary)" by (metis nth_mem)
    with i(3) show "True \<in> set (map is_lift (drop m ary))" by force
  qed
  also have "\<dots> \<longleftrightarrow> filter (\<lambda>i. pen_lift (ary ! i) = 1) [m..<length ary] \<noteq> []"
    by (auto simp: filter_empty_conv is_lift_def)
  finally show ?thesis .
qed

lemma np_split_from_seglens:
  assumes "st \<le> m" and "m \<le> length ary"
  shows "map length (np_split_from st ary
           (butlast (map Suc (filter (\<lambda>i. pen_lift (ary ! i) = 1) [m..<length ary])))) =
         seglens (m - st) (map is_lift (drop m ary))"
  using assms
proof (induction "length ary - m" arbitrary: m st)
  case 0
  then have "m = length ary" by simp
  then show ?case by simp
next
  case (Suc d)
  then have lt: "m < length ary" by simp
  let ?F = "\<lambda>m. filter (\<lambda>i. pen_lift (ary ! i) = 1) [m..<length ary]"
  have up: "[m..<length ary] = m # [Suc m..<length ary]"
    using lt by (simp add: upt_conv_Cons)
  have dr: "drop m ary = ary ! m # drop (Suc m) ary"
    using lt by (simp add: Cons_nth_drop_Suc)
  have d: "d = length ary - Suc m" using Suc.hyps(2) by simp
  show ?case
  proof (cases "pen_lift (ary ! m) = 1")
    case False
    have "st \<le> Suc m" using Suc.prems by simp
    from Suc.hyps(1) [OF d this] lt False Suc.prems(1) show ?thesis
      by (simp add: up dr is_lift_def Suc_diff_le)
  next
    case True
    show ?thesis
    proof (cases "?F (Suc m) = []")
      case e: True
      then have "True \<notin> set (map is_lift (drop (Suc m) ary))"
        by (simp only: lift_in_drop) simp
      then have "seglens (Suc (m - st)) (map is_lift (drop (Suc m) ary)) =
                 [Suc (m - st) + length (map is_lift (drop (Suc m) ary))]"
        by (rule seglens_no_lift)
      then show ?thesis
        using True e lt Suc.prems \<open>True \<notin> set (map is_lift (drop (Suc m) ary))\<close>
        by (simp add: up dr is_lift_def)
    next
      case ne: False
      then have t: "True \<in> set (map is_lift (drop (Suc m) ary))"
        by (simp only: lift_in_drop not_False_eq_True)
      have "map length (np_split_from (Suc m) ary (butlast (map Suc (?F (Suc m))))) =
              seglens (Suc m - Suc m) (map is_lift (drop (Suc m) ary))"
        using lt by (intro Suc.hyps(1) [OF d]) simp_all
      moreover have "min (length ary - st) (Suc m - st) = Suc (m - st)"
        using lt Suc.prems(1) by arith
      ultimately show ?thesis
        using True ne t
        by (simp add: up dr is_lift_def)
    qed
  qed
qed

lemma split_sketch_lengths:
  "map length (split_sketch data) = seglens 0 (map is_lift data)"
  using np_split_from_seglens [of 0 0 data]
  by (simp add: split_sketch_def np_split_def where_lift_def)

section \<open>Claims on preprocess\<close>





















section \<open>Sampled copies keep their pen-strokes short\<close>

lemma seglens_all_False:
  "\<forall>b\<in>set bs0. \<not> b \<Longrightarrow> seglens n (bs0 @ bs) = seglens (n + length bs0) bs"
  by (induction bs0 arbitrary: n) auto

lemma seglens_nonempty: "seglens n bs \<noteq> []"
  by (induction bs arbitrary: n) auto

lemma is_lift_merge_group:
  assumes "grp \<noteq> []" and "1 < length grp \<longrightarrow> (\<forall>p\<in>set grp. pen_lift p = 0)"
  shows "is_lift (merge_group grp) \<longleftrightarrow> True \<in> set (map is_lift grp)"
proof
  assume "is_lift (merge_group grp)"
  then have "is_lift (hd grp)" by (simp add: is_lift_def)
  then show "True \<in> set (map is_lift grp)" using assms(1) by (force simp: hd_in_set)
next
  assume "True \<in> set (map is_lift grp)"
  then obtain p where p: "p \<in> set grp" "pen_lift p = 1" by (auto simp: is_lift_def)
  from group_lift_single [OF assms p] show "is_lift (merge_group grp)"
    using p(2) by (simp add: is_lift_def)
qed

lemma lifts_merge_groups:
  assumes "\<forall>grp\<in>set gs. grp \<noteq> [] \<and> (1 < length grp \<longrightarrow> (\<forall>p\<in>set grp. pen_lift p = 0))"
  shows "True \<in> set (map is_lift (map merge_group gs)) \<longleftrightarrow> True \<in> set (map is_lift (concat gs))"
  using assms
proof (induction gs)
  case Nil
  show ?case by simp
next
  case (Cons grp gs)
  then have g: "grp \<noteq> []" "1 < length grp \<longrightarrow> (\<forall>p\<in>set grp. pen_lift p = 0)"
    and r: "True \<in> set (map is_lift (map merge_group gs)) \<longleftrightarrow> True \<in> set (map is_lift (concat gs))"
    by simp_all
  have "True \<in> set (map is_lift (map merge_group (grp # gs))) \<longleftrightarrow>
        is_lift (merge_group grp) \<or> True \<in> set (map is_lift (map merge_group gs))"
    by auto
  also have "\<dots> \<longleftrightarrow> True \<in> set (map is_lift grp) \<or> True \<in> set (map is_lift (concat gs))"
    by (simp only: is_lift_merge_group [OF g] r)
  also have "\<dots> \<longleftrightarrow> True \<in> set (map is_lift (concat (grp # gs)))"
    by auto
  finally show ?case .
qed

lemma seglens_merge_groups:
  assumes "\<forall>grp\<in>set gs. grp \<noteq> [] \<and> (1 < length grp \<longrightarrow> (\<forall>p\<in>set grp. pen_lift p = 0))"
    and "n' \<le> n"
  shows "list_all2 (\<le>) (seglens n' (map is_lift (map merge_group gs)))
                      (seglens n (map is_lift (concat gs)))"
  using assms
proof (induction gs arbitrary: n n')
  case Nil
  then show ?case by simp
next
  case (Cons grp gs)
  then have g: "grp \<noteq> []" "1 < length grp \<longrightarrow> (\<forall>p\<in>set grp. pen_lift p = 0)"
    and r: "\<forall>grp\<in>set gs. grp \<noteq> [] \<and> (1 < length grp \<longrightarrow> (\<forall>p\<in>set grp. pen_lift p = 0))"
    by simp_all
  note ex = lifts_merge_groups [OF r]
  show ?case
  proof (cases "1 < length grp")
    case True
    with g have z: "\<forall>p\<in>set grp. pen_lift p = 0" by simp
    then have f: "\<forall>b\<in>set (map is_lift grp). \<not> b" by (simp add: is_lift_def)
    have nl: "\<not> is_lift (merge_group grp)"
      using z g(1) by (simp add: is_lift_def hd_in_set)
    have "seglens n (map is_lift (concat (grp # gs))) =
          seglens (n + length grp) (map is_lift (concat gs))"
      using seglens_all_False [OF f, of n "map is_lift (concat gs)"] by simp
    moreover have "seglens n' (map is_lift (map merge_group (grp # gs))) =
          seglens (Suc n') (map is_lift (map merge_group gs))"
      using nl by simp
    moreover have "Suc n' \<le> n + length grp" using True Cons.prems(2) by simp
    ultimately show ?thesis using Cons.IH [OF r] by simp
  next
    case False
    with g(1) obtain p where grp: "grp = [p]" by (cases grp) auto
    show ?thesis
    proof (cases "is_lift p \<and> True \<in> set (map is_lift (concat gs))")
      case True
      then show ?thesis
        using Cons.IH [OF r, of 0 0] Cons.prems(2) ex by (simp add: grp)
    next
      case False
      then show ?thesis
        using Cons.IH [OF r, of "Suc n'" "Suc n"] Cons.prems(2) ex by (auto simp: grp)
    qed
  qed
qed

lemma list_all2_le_bound:
  "list_all2 (\<le>) xs ys \<Longrightarrow> \<forall>y\<in>set ys. y \<le> (b::nat) \<Longrightarrow> \<forall>x\<in>set xs. x \<le> b"
  by (induction rule: list_all2_induct) auto

lemma kept_seglens:
  "kept dl s \<longleftrightarrow> (\<forall>x\<in>set (seglens 0 (map is_lift s)). x \<le> max_seq_length dl)"
proof -
  have "set (map length (split_sketch s)) \<noteq> {}" by (simp add: split_sketch_nonempty)
  then show ?thesis
    unfolding kept_iff split_sketch_lengths [symmetric] by (subst Max_le_iff) auto
qed

lemma kept_cong: "map is_lift s' = map is_lift s \<Longrightarrow> kept dl s' = kept dl s"
  by (simp add: kept_seglens)

lemma kept_augment_strokes:
  assumes "kept dl s"
  shows "kept dl (fst (augment_strokes s prob g))"
proof -
  from augment_strokes_groups [of s prob g] obtain gs
    where c: "concat gs = s" and ok: "groups_ok True gs"
      and r: "fst (augment_strokes s prob g) = map merge_group gs"
    by blast
  from seglens_merge_groups [OF groups_okD(1) [OF ok] le_refl, of 0]
  have "list_all2 (\<le>) (seglens 0 (map is_lift (map merge_group gs))) (seglens 0 (map is_lift s))"
    by (simp only: c)
  moreover have "\<forall>x\<in>set (seglens 0 (map is_lift s)). x \<le> max_seq_length dl"
    using assms by (simp only: kept_seglens)
  ultimately have "\<forall>x\<in>set (seglens 0 (map is_lift (map merge_group gs))). x \<le> max_seq_length dl"
    by (rule list_all2_le_bound)
  then show ?thesis by (simp only: kept_seglens r)
qed

lemma augment_strokes_nonempty:
  assumes "s \<noteq> []"
  shows "fst (augment_strokes s prob g) \<noteq> []"
proof -
  from augment_strokes_groups [of s prob g] obtain gs
    where "concat gs = s" and "fst (augment_strokes s prob g) = map merge_group gs"
    by blast
  with assms show ?thesis by auto
qed

lemma random_scale_lifts:
  "map is_lift (fst (random_scale dl s g)) = map is_lift s"
  "length (fst (random_scale dl s g)) = length s"
  by (simp_all add: random_scale_def draw_def Let_def is_lift_def comp_def)

lemma sketch_copy_kept:
  assumes "kept dl s"
  shows "kept dl (fst (sketch_copy dl s g))"
proof -
  have k: "kept dl (fst (random_scale dl s g))"
    using assms kept_cong [OF random_scale_lifts(1)] by simp
  show ?thesis
    using k kept_augment_strokes [OF k]
    by (simp add: sketch_copy_def split_beta Let_def)
qed

lemma sketch_copy_nonempty:
  assumes "s \<noteq> []"
  shows "fst (sketch_copy dl s g) \<noteq> []"
proof -
  have n: "fst (random_scale dl s g) \<noteq> []"
    using assms random_scale_lifts(2) [of dl s g] by auto
  show ?thesis
    using n augment_strokes_nonempty [OF n]
    by (simp add: sketch_copy_def split_beta Let_def)
qed

section \<open>random_stroke_batch\<close>

lemma get_sketches_loop_ok:
  assumes "\<forall>i\<in>set indices. i < length (strokes dl) \<and> kept dl (strokes dl ! i) \<and>
             (0 < augment_stroke_prob dl \<longrightarrow> strokes dl ! i \<noteq> [])"
  shows "\<exists>res g'. get_sketches_loop dl indices g = Inr (res, g') \<and>
           length res = length indices \<and>
           (\<forall>k<length indices. \<exists>g1. fst (res ! k) = fst (sketch_copy dl (strokes dl ! (indices ! k)) g1)) \<and>
           (\<forall>r\<in>set res. kept dl (fst r))"
  using assms
proof (induction indices arbitrary: g)
  case Nil
  then show ?case by simp
next
  case (Cons i indices)
  let ?c = "sketch_copy dl (strokes dl ! i) g"
  from Cons.prems have i: "i < length (strokes dl)" and k: "kept dl (strokes dl ! i)"
    and ne: "0 < augment_stroke_prob dl \<Longrightarrow> strokes dl ! i \<noteq> []"
    and rest: "\<forall>i\<in>set indices. i < length (strokes dl) \<and> kept dl (strokes dl ! i) \<and>
             (0 < augment_stroke_prob dl \<longrightarrow> strokes dl ! i \<noteq> [])"
    by simp_all
  from Cons.IH [OF rest, of "snd ?c"] obtain res g'
    where r: "get_sketches_loop dl indices (snd ?c) = Inr (res, g')"
      and l: "length res = length indices"
      and c: "\<forall>k<length indices. \<exists>g1. fst (res ! k) = fst (sketch_copy dl (strokes dl ! (indices ! k)) g1)"
      and kk: "\<forall>r\<in>set res. kept dl (fst r)"
    by blast
  have n: "\<not> (0 < augment_stroke_prob dl \<and> fst ?c = [])"
    using ne sketch_copy_nonempty by blast
  have e: "get_sketches_loop dl (i # indices) g =
             Inr ((fst ?c, sum_list (map pen_lift (fst ?c))) # res, g')"
    using i n r by (simp add: split_beta Let_def)
  have c': "\<exists>g1. fst (((fst ?c, sum_list (map pen_lift (fst ?c))) # res) ! k) =
                  fst (sketch_copy dl (strokes dl ! ((i # indices) ! k)) g1)"
    if "k < length (i # indices)" for k
  proof (cases k)
    case 0
    then show ?thesis by auto
  next
    case (Suc k')
    with that c show ?thesis by simp
  qed
  show ?case
    using e l c' kk sketch_copy_kept [OF k, of g]
    by (intro exI [of _ "(fst ?c, sum_list (map pen_lift (fst ?c))) # res"] exI [of _ g']) simp
qed

lemma random_stroke_batch_nonempty:
  assumes "stroke_batch_queue dl \<noteq> []"
  shows "random_stroke_batch dl perm g =
           Inr (hd (stroke_batch_queue dl),
                dl\<lparr>stroke_batch_queue := tl (stroke_batch_queue dl)\<rparr>, g)"
  using assms by (simp add: random_stroke_batch_def)

lemma calls_drain:
  assumes "n \<le> length (stroke_batch_queue dl)"
  shows "calls n dl rs =
           Inr (take n (stroke_batch_queue dl),
                dl\<lparr>stroke_batch_queue := drop n (stroke_batch_queue dl)\<rparr>)"
  using assms
proof (induction n arbitrary: dl rs)
  case 0
  then show ?case by simp
next
  case (Suc n)
  then have ne: "stroke_batch_queue dl \<noteq> []" by auto
  let ?dl' = "dl\<lparr>stroke_batch_queue := tl (stroke_batch_queue dl)\<rparr>"
  have "n \<le> length (stroke_batch_queue ?dl')" using Suc.prems by simp
  from Suc.IH [OF this, of "\<lambda>k. rs (Suc k)"] ne show ?case
    by (simp add: random_stroke_batch_nonempty [OF ne] take_Suc drop_Suc)
qed


text \<open>
  Claim C1, amended. Take a loader with \<open>batch_size > 0\<close> whose stored corpus has at least
  \<open>batch_size\<close> sketches, each with pen-strokes of at most \<open>max_seq_length\<close> points as
  stored and, when \<open>augment_stroke_prob > 0\<close>, each non-empty. When the queue is empty, a
  call of \<open>random_stroke_batch\<close> samples the \<open>batch_size\<close> sketches at the first positions
  of the permutation, builds a run of exactly \<open>k\<close> mini-batches, \<open>k \<ge> 1\<close> the largest number
  of pen-strokes in the cohort, enqueues them in the order of \<open>pad_stroke_batch\<close>, and
  returns the first one. The first \<open>n \<le> k\<close> calls return the first \<open>n\<close> mini-batches of
  the run in order, whatever random inputs the later calls are given (nothing is
  regenerated), and after \<open>k\<close> calls the queue is empty again.
\<close>

theorem random_stroke_batch_run:
  assumes q: "stroke_batch_queue dl = []"
    and bs: "0 < batch_size dl" "batch_size dl \<le> length (strokes dl)"
    and perm: "distinct perm" "set perm = {..<length (strokes dl)}"
    and kp: "\<forall>s\<in>set (strokes dl). kept dl s"
    and ne: "0 < augment_stroke_prob dl \<longrightarrow> (\<forall>s\<in>set (strokes dl). s \<noteq> [])"
  shows "\<exists>sketches g' run.
           length sketches = batch_size dl \<and>
           (\<forall>i<batch_size dl. \<exists>g1. sketches ! i = fst (sketch_copy dl (strokes dl ! (perm ! i)) g1)) \<and>
           pad_stroke_batch dl (map split_sketch sketches) = Inr run \<and>
           length run = Max (set (map (\<lambda>s. length (split_sketch s)) sketches)) \<and>
           0 < length run \<and>
           random_stroke_batch dl perm g = Inr (run ! 0, dl\<lparr>stroke_batch_queue := tl run\<rparr>, g') \<and>
           (\<forall>rs n. rs 0 = (perm, g) \<longrightarrow> 0 < n \<longrightarrow> n \<le> length run \<longrightarrow>
              calls n dl rs = Inr (take n run, dl\<lparr>stroke_batch_queue := drop n run\<rparr>))"
proof -
  let ?N = "max_seq_length dl"
  let ?idx = "take (batch_size dl) perm"
  have lp: "length perm = length (strokes dl)"
    using distinct_card [OF perm(1)] perm(2) by simp
  have li: "length ?idx = batch_size dl" using lp bs(2) by simp
  have idx: "\<forall>i\<in>set ?idx. i < length (strokes dl) \<and> kept dl (strokes dl ! i) \<and>
               (0 < augment_stroke_prob dl \<longrightarrow> strokes dl ! i \<noteq> [])"
  proof
    fix i assume "i \<in> set ?idx"
    then have "i \<in> set perm" by (rule in_set_takeD)
    then have i: "i < length (strokes dl)" using perm(2) by simp
    then have "strokes dl ! i \<in> set (strokes dl)" by (rule nth_mem)
    with i kp ne show "i < length (strokes dl) \<and> kept dl (strokes dl ! i) \<and>
               (0 < augment_stroke_prob dl \<longrightarrow> strokes dl ! i \<noteq> [])"
      by blast
  qed
  from get_sketches_loop_ok [OF idx, of g] obtain res g'
    where loop: "get_sketches_loop dl ?idx g = Inr (res, g')"
      and lr: "length res = batch_size dl"
      and cp: "\<forall>k<batch_size dl. \<exists>g1. fst (res ! k) = fst (sketch_copy dl (strokes dl ! (?idx ! k)) g1)"
      and kr: "\<forall>r\<in>set res. kept dl (fst r)"
    unfolding li by blast
  let ?sk = "map fst res"
  let ?ss = "map split_sketch ?sk"
  have gs: "get_sketches_from_indices dl ?idx g = Inr (?sk, map (to_int \<circ> snd) res, g')"
    by (simp add: get_sketches_from_indices_def loop)
  have l1: "length ?sk = batch_size dl" using lr by simp
  have c1: "\<forall>i<batch_size dl. \<exists>g1. ?sk ! i = fst (sketch_copy dl (strokes dl ! (perm ! i)) g1)"
    using cp lr by simp
  have ssne: "?ss \<noteq> []" using lr bs(1) by auto
  have short: "length (?ss ! i ! j) \<le> ?N" if "i < batch_size dl" and "j < length (?ss ! i)" for i j
  proof -
    have "res ! i \<in> set res" using that(1) lr by simp
    with kr have "kept dl (fst (res ! i))" by blast
    then have m: "Max (set (map length (split_sketch (fst (res ! i))))) \<le> ?N"
      by (simp only: kept_iff)
    have e: "?ss ! i = split_sketch (fst (res ! i))" using that(1) lr by simp
    have "length (?ss ! i ! j) \<in> set (map length (split_sketch (fst (res ! i))))"
      using that(2) unfolding e by simp
    then have "length (?ss ! i ! j) \<le> Max (set (map length (split_sketch (fst (res ! i)))))"
      by (intro Max_ge) simp_all
    with m show ?thesis by simp
  qed
  define run where "run = map (\<lambda>j. \<lparr>arr = map (\<lambda>i. fst (row_of ?N (?ss ! i) j)) [0..<batch_size dl],
                         seq_len = map (\<lambda>i. snd (row_of ?N (?ss ! i) j)) [0..<batch_size dl]\<rparr>)
                  [0..<Max (set (map length ?ss))]"
  have pad: "pad_stroke_batch dl ?ss = Inr run"
    unfolding run_def using ssne short lr by (intro pad_stroke_batch_success) simp_all
  have lrun': "length run = Max (set (map length ?ss))"
    by (simp add: run_def)
  have lrun: "length run = Max (set (map (\<lambda>s. length (split_sketch s)) ?sk))"
    by (simp add: lrun' comp_def)
  have pos: "0 < length run"
  proof -
    from ssne obtain s0 where s0: "s0 \<in> set ?sk" by (cases res) auto
    have a: "0 < length (split_sketch s0)" using split_sketch_nonempty [of s0] by simp
    have b: "length (split_sketch s0) \<le> Max (set (map length ?ss))"
      using s0 by (intro Max_ge) auto
    have "0 < Max (set (map length ?ss))"
      using a b by (rule less_le_trans)
    then show ?thesis by (simp only: lrun')
  qed
  then have rne: "run \<noteq> []" by auto
  have first: "random_stroke_batch dl perm g = Inr (run ! 0, dl\<lparr>stroke_batch_queue := tl run\<rparr>, g')"
    using rne pad by (simp add: random_stroke_batch_def q gs hd_conv_nth)
  have all: "calls n dl rs = Inr (take n run, dl\<lparr>stroke_batch_queue := drop n run\<rparr>)"
    if rs: "rs 0 = (perm, g)" and n0: "0 < n" and n: "n \<le> length run" for rs n
  proof (cases n)
    case 0
    then show ?thesis using n0 by simp
  next
    case (Suc m)
    let ?dl1 = "dl\<lparr>stroke_batch_queue := tl run\<rparr>"
    have "m \<le> length (stroke_batch_queue ?dl1)" using n Suc by simp
    from calls_drain [OF this, of "\<lambda>k. rs (Suc k)"]
    have "calls m ?dl1 (\<lambda>k. rs (Suc k)) =
            Inr (take m (tl run), dl\<lparr>stroke_batch_queue := drop m (tl run)\<rparr>)"
      by simp
    moreover have "take (Suc m) run = run ! 0 # take m (tl run)"
      using rne by (cases run) simp_all
    moreover have "drop (Suc m) run = drop m (tl run)"
      by (simp add: drop_Suc)
    ultimately show ?thesis
      using first rs by (simp only: Suc calls.simps fst_conv snd_conv sum.case prod.case)
  qed
  show ?thesis
    using l1 c1 pad lrun pos first all
    by (intro exI [of _ ?sk] exI [of _ g'] exI [of _ run]) blast
qed


text \<open>
  \<open>preprocess\<close> establishes the hypothesis on stored pen-strokes when \<open>limit \<ge> 1\<close> and the
  pen_lift values of the corpus are 0 or 1.
\<close>

lemma preprocess_kept:
  assumes "is_argsort (map length (filter (kept dl) sketches)) idx"
    and "0 < batch_size dl" and "1 \<le> limit dl"
    and "\<forall>s\<in>set sketches. \<forall>p\<in>set s. pen_lift p = 0 \<or> pen_lift p = 1"
    and "preprocess idx dl sketches = Inr dl'"
  shows "\<forall>s'\<in>set (strokes dl'). kept dl' s'"
proof
  fix s' assume s': "s' \<in> set (strokes dl')"
  let ?kept = "filter (kept dl) sketches"
  note c = is_argsortD [OF assms(1)]
  from assms(5) have st: "strokes dl' = map (\<lambda>i. map (clamp_scale dl) ?kept ! i) idx"
    and m: "max_seq_length dl' = max_seq_length dl"
    unfolding preprocess_closed [OF assms(1,2)] by auto
  from s' st obtain i where i: "i \<in> set idx" and e: "s' = map (clamp_scale dl) ?kept ! i"
    by auto
  from i c(2) have lt: "i < length ?kept" by simp
  then have mem: "?kept ! i \<in> set ?kept" by (rule nth_mem)
  then have k: "kept dl (?kept ! i)" and v: "\<forall>p\<in>set (?kept ! i). pen_lift p = 0 \<or> pen_lift p = 1"
    using assms(4) by auto
  have e': "s' = clamp_scale dl (?kept ! i)" using e lt by simp
  have "map pen_lift s' = map pen_lift (?kept ! i)"
    unfolding e' by (rule clamp_scale_pen_lift_unchanged [OF assms(3) v])
  moreover have il: "map is_lift t = map (\<lambda>v. v = 1) (map pen_lift t)" for t
    by (induction t) (simp_all add: is_lift_def)
  ultimately have "map is_lift s' = map is_lift (?kept ! i)"
    by (simp only: il)
  then have "kept dl s' = kept dl (?kept ! i)" by (rule kept_cong)
  with k show "kept dl' s'" by (simp add: kept_iff m)
qed

lemma ex_preprocess_loader:
  "preprocess [1, 0] ex_dl [s_two, s_long, s_one] = Inr ex_loader"
  by (simp only: ex_preprocess ex_loader_def)

lemma ex_preprocess_small:
  "preprocess [0] ex_dl [s_one] = Inr ex_loader_small"
proof -
  have b: "0 < batch_size ex_dl" by (simp add: ex_dl_def)
  have a: "is_argsort (map length (filter (kept ex_dl) [s_one])) [0]"
    by (rule is_argsortI) (simp_all add: ex_kept)
  show ?thesis
    unfolding preprocess_closed [OF a b] ex_loader_small_def
    by (simp add: ex_kept ex_clamp_scale) (simp add: ex_dl_def)
qed

lemma random_scale_unit:
  "random_scale_factor dl = 0 \<Longrightarrow> random_scale dl s g = (s, \<lambda>n. g (Suc (Suc n)))"
  by (simp add: random_scale_def draw_def Let_def comp_def)

lemma sketch_copy_plain:
  "random_scale_factor dl = 0 \<Longrightarrow> \<not> 0 < augment_stroke_prob dl \<Longrightarrow>
   sketch_copy dl s g = (s, \<lambda>n. g (Suc (Suc n)))"
  by (simp add: sketch_copy_def random_scale_unit)

lemma ex_loader_fields:
  "random_scale_factor ex_loader = 0" "\<not> 0 < augment_stroke_prob ex_loader"
  "strokes ex_loader = [s_one, s_two]" "batch_size ex_loader = 2" "max_seq_length ex_loader = 3"
  "stroke_batch_queue ex_loader = []"
  "random_scale_factor ex_loader_small = 0" "\<not> 0 < augment_stroke_prob ex_loader_small"
  "strokes ex_loader_small = [s_one]" "batch_size ex_loader_small = 2"
  "max_seq_length ex_loader_small = 3" "stroke_batch_queue ex_loader_small = []"
  by (simp_all add: ex_loader_def ex_loader_small_def ex_dl_def)

lemma ex_get_sketches:
  "get_sketches_from_indices ex_loader (take (batch_size ex_loader) [1, 0]) (\<lambda>n. 1 / 2) =
     Inr ([s_two, s_one], [2, 1], \<lambda>n. 1 / 2)"
  by (simp add: get_sketches_from_indices_def ex_loader_fields sketch_copy_plain to_int_def)
     (simp add: s_two_def s_one_def pt_def)

lemma ex_pad_run:
  "pad_stroke_batch ex_loader (map split_sketch [s_two, s_one]) = Inr ex_run"
proof -
  let ?ss = "[[[pt 1 2 0, pt 3 4 1], [pt 5 6 1]], [s_one]]"
  have m: "Max (set (map length ?ss)) = 2" by simp
  have "pad_stroke_batch ex_loader ?ss =
           Inr (map (\<lambda>j. \<lparr>arr = map (\<lambda>i. fst (row_of (max_seq_length ex_loader) (?ss ! i) j)) [0..<batch_size ex_loader],
                         seq_len = map (\<lambda>i. snd (row_of (max_seq_length ex_loader) (?ss ! i) j)) [0..<batch_size ex_loader]\<rparr>)
                  [0..<Max (set (map length ?ss))])"
    by (rule pad_stroke_batch_success)
       (auto simp: ex_loader_fields s_one_def less_Suc_eq numeral_2_eq_2 numeral_3_eq_3 nth_Cons')
  also have "\<dots> = Inr ex_run"
    unfolding m
    by (simp add: ex_loader_fields upt_2 row_of_def ex_run_def s_one_def)
       (simp add: eval_nat_numeral)
  finally show ?thesis by (simp add: ex_split)
qed

lemma ex_random_stroke_batch:
  "random_stroke_batch ex_loader [1, 0] (\<lambda>n. 1 / 2) =
     Inr (ex_run ! 0, ex_loader\<lparr>stroke_batch_queue := tl ex_run\<rparr>, \<lambda>n. 1 / 2)"
  by (simp only: random_stroke_batch_def ex_loader_fields(6) ex_get_sketches ex_pad_run Let_def
        sum.case prod.case simp_thms if_True append_Nil)
     (simp add: ex_run_def)


theorem random_stroke_batch_run_witness:
  "preprocess [1, 0] ex_dl [s_two, s_long, s_one] = Inr ex_loader \<and>
   random_stroke_batch ex_loader [1, 0] (\<lambda>n. 1 / 2) =
     Inr (ex_run ! 0, ex_loader\<lparr>stroke_batch_queue := tl ex_run\<rparr>, \<lambda>n. 1 / 2) \<and>
   calls 2 ex_loader (\<lambda>k. ([1, 0], \<lambda>n. 1 / 2)) =
     Inr (ex_run, ex_loader\<lparr>stroke_batch_queue := []\<rparr>)"
proof -
  have q: "stroke_batch_queue ex_loader = []" by (rule ex_loader_fields)
  have b1: "0 < batch_size ex_loader" and b2: "batch_size ex_loader \<le> length (strokes ex_loader)"
    by (simp_all add: ex_loader_fields)
  have p1: "distinct [1, 0::nat]" by simp
  have p2: "set [1, 0::nat] = {..<length (strokes ex_loader)}"
    by (auto simp: ex_loader_fields)
  have k: "\<forall>s\<in>set (strokes ex_loader). kept ex_loader s"
    using ex_kept(1,3) by (simp add: kept_iff ex_loader_fields ex_dl_def)
  have n: "0 < augment_stroke_prob ex_loader \<longrightarrow> (\<forall>s\<in>set (strokes ex_loader). s \<noteq> [])"
    by (simp add: ex_loader_fields)
  from random_stroke_batch_run [OF q b1 b2 p1 p2 k n, of "\<lambda>n. 1 / 2"]
  obtain run g' where r0: "0 < length run"
    and first: "random_stroke_batch ex_loader [1, 0] (\<lambda>n. 1 / 2) =
                  Inr (run ! 0, ex_loader\<lparr>stroke_batch_queue := tl run\<rparr>, g')"
    and all: "\<And>rs n. rs 0 = ([1, 0], \<lambda>n. 1 / 2) \<Longrightarrow> 0 < n \<Longrightarrow> n \<le> length run \<Longrightarrow>
                calls n ex_loader rs = Inr (take n run, ex_loader\<lparr>stroke_batch_queue := drop n run\<rparr>)"
    by blast
  from first have h: "run ! 0 = ex_run ! 0"
    and t': "ex_loader\<lparr>stroke_batch_queue := tl run\<rparr> = ex_loader\<lparr>stroke_batch_queue := tl ex_run\<rparr>"
    by (simp_all only: ex_random_stroke_batch sum.inject prod.inject)
  from t' have "stroke_batch_queue (ex_loader\<lparr>stroke_batch_queue := tl run\<rparr>) =
                stroke_batch_queue (ex_loader\<lparr>stroke_batch_queue := tl ex_run\<rparr>)"
    by (rule arg_cong)
  then have t: "tl run = tl ex_run" by simp
  from r0 have "run = run ! 0 # tl run" by (cases run) simp_all
  with h t have e: "run = ex_run" by (simp add: ex_run_def)
  have "calls 2 ex_loader (\<lambda>k. ([1, 0], \<lambda>n. 1 / 2)) =
          Inr (take 2 run, ex_loader\<lparr>stroke_batch_queue := drop 2 run\<rparr>)"
    by (rule all) (simp_all add: e ex_run_def)
  then have c: "calls 2 ex_loader (\<lambda>k. ([1, 0], \<lambda>n. 1 / 2)) =
          Inr (ex_run, ex_loader\<lparr>stroke_batch_queue := []\<rparr>)"
    by (simp add: e ex_run_def)
  show ?thesis
    by (intro conjI ex_preprocess_loader ex_random_stroke_batch c)
qed

text \<open>
  Claim C1 as stated covers every loader with a non-empty preprocessed corpus. With one
  stored sketch and \<open>batch_size = 2\<close> the cohort has one sketch only, and
  \<^verbatim>\<open>sketch_strokes[1]\<close> raises IndexError.
\<close>

lemma ex_small_fails:
  "random_stroke_batch ex_loader_small [0] (\<lambda>n. 1 / 2) = Inl IndexError"
proof -
  have g: "get_sketches_from_indices ex_loader_small (take (batch_size ex_loader_small) [0]) (\<lambda>n. 1 / 2) =
     Inr ([s_one], [1], \<lambda>n. 1 / 2)"
    by (simp add: get_sketches_from_indices_def ex_loader_fields sketch_copy_plain to_int_def)
       (simp add: s_one_def pt_def)
  have p: "pad_stroke_batch ex_loader_small (map split_sketch [s_one]) = Inl IndexError"
    by (simp only: list.map ex_split)
       (simp add: pad_stroke_batch_def pad_stroke_minibatch_def ex_loader_fields upt_2
        upt_1 pad_stroke_row_cases s_one_def)
  show ?thesis
    by (simp only: random_stroke_batch_def ex_loader_fields(12) g p Let_def
        sum.case prod.case simp_thms if_True)
qed

theorem random_stroke_batch_small_corpus_counterexample:
  "preprocess [0] ex_dl [s_one] = Inr ex_loader_small \<and>
   strokes ex_loader_small \<noteq> [] \<and> stroke_batch_queue ex_loader_small = [] \<and>
   random_stroke_batch ex_loader_small [0] (\<lambda>n. 1 / 2) = Inl IndexError"
proof (intro conjI)
  show "preprocess [0] ex_dl [s_one] = Inr ex_loader_small"
    by (rule ex_preprocess_small)
  show "strokes ex_loader_small \<noteq> []" by (simp add: ex_loader_fields)
  show "stroke_batch_queue ex_loader_small = []" by (rule ex_loader_fields)
  show "random_stroke_batch ex_loader_small [0] (\<lambda>n. 1 / 2) = Inl IndexError"
    by (rule ex_small_fails)
qed


text \<open>
  The other two hypotheses are needed as well. With \<open>limit = 1/2\<close> the clamp of
  \<open>preprocess\<close> turns every pen_lift of 1 into 1/2, a retained sketch of four one-point
  pen-strokes is stored as one pen-stroke of four points, and \<open>pad_stroke_batch\<close> fails its
  assertion. With \<open>augment_stroke_prob > 0\<close> an empty stored sketch makes
  \<^verbatim>\<open>data_copy[:, 2]\<close> raise IndexError.
\<close>

lemma ex_preprocess_half_loader:
  "preprocess [0, 1] ex_dl_half [s_four, s_four] = Inr ex_loader_half"
proof -
  have b: "0 < batch_size ex_dl_half" by (simp add: ex_dl_half_def ex_dl_def)
  have sp: "split_sketch s_four = [[pt 1 0 1], [pt 1 0 1], [pt 1 0 1], [pt 1 0 1]]"
    by (simp add: split_sketch_def where_lift_def np_split_def s_four_def upt_4 pt_def)
  have k: "kept ex_dl_half s_four"
    by (simp add: kept_iff sp ex_dl_half_def ex_dl_def)
  have c: "clamp_scale ex_dl_half s_four = c_four"
    by (simp add: clamp_scale_def ex_dl_half_def ex_dl_def s_four_def c_four_def pt_def)
  have a: "is_argsort (map length (filter (kept ex_dl_half) [s_four, s_four])) [0, 1]"
    by (rule is_argsortI) (simp_all add: k)
  show ?thesis
    unfolding preprocess_closed [OF a b] ex_loader_half_def
    by (simp add: k c) (simp add: ex_dl_half_def ex_dl_def)
qed

lemma ex_half_fails:
  "random_stroke_batch ex_loader_half [0, 1] (\<lambda>n. 1 / 2) = Inl AssertionError"
proof -
  have f: "random_scale_factor ex_loader_half = 0" "\<not> 0 < augment_stroke_prob ex_loader_half"
    "strokes ex_loader_half = [c_four, c_four]" "batch_size ex_loader_half = 2"
    "max_seq_length ex_loader_half = 3" "stroke_batch_queue ex_loader_half = []"
    by (simp_all add: ex_loader_half_def ex_dl_half_def ex_dl_def)
  have g: "get_sketches_from_indices ex_loader_half (take (batch_size ex_loader_half) [0, 1]) (\<lambda>n. 1 / 2) =
     Inr ([c_four, c_four], [2, 2], \<lambda>n. 1 / 2)"
    by (simp add: get_sketches_from_indices_def f sketch_copy_plain to_int_def)
       (simp add: c_four_def pt_def)
  have sp: "split_sketch c_four = [c_four]"
    by (simp add: split_sketch_def where_lift_def np_split_def c_four_def upt_4 pt_def)
  have p: "pad_stroke_batch ex_loader_half (map split_sketch [c_four, c_four]) = Inl AssertionError"
    by (simp only: list.map sp)
       (simp add: pad_stroke_batch_def pad_stroke_minibatch_def f upt_2 upt_1
        pad_stroke_row_cases c_four_def)
  show ?thesis
    by (simp only: random_stroke_batch_def f(6) g p Let_def sum.case prod.case simp_thms if_True)
qed

lemma ex_preprocess_aug_loader:
  "preprocess [0, 1] ex_dl_aug [[], []] = Inr ex_loader_aug"
proof -
  have b: "0 < batch_size ex_dl_aug" by (simp add: ex_dl_aug_def ex_dl_def)
  have sp: "split_sketch [] = [[]]"
    by (simp add: split_sketch_def where_lift_def np_split_def)
  have k: "kept ex_dl_aug []"
    by (simp add: kept_iff sp)
  have c: "clamp_scale ex_dl_aug [] = []"
    by (simp add: clamp_scale_def)
  have a: "is_argsort (map length (filter (kept ex_dl_aug) [[], []])) [0, 1]"
    by (rule is_argsortI) (simp_all add: k)
  show ?thesis
    unfolding preprocess_closed [OF a b] ex_loader_aug_def
    by (simp add: k c) (simp add: ex_dl_aug_def ex_dl_def)
qed

lemma ex_aug_fails:
  "random_stroke_batch ex_loader_aug [0, 1] (\<lambda>n. 1 / 2) = Inl IndexError"
proof -
  have f: "0 < augment_stroke_prob ex_loader_aug"
    "strokes ex_loader_aug = [[], []]" "batch_size ex_loader_aug = 2"
    "stroke_batch_queue ex_loader_aug = []"
    by (simp_all add: ex_loader_aug_def ex_dl_aug_def ex_dl_def)
  have c: "fst (sketch_copy ex_loader_aug [] g) = []" for g
    by (simp add: sketch_copy_def random_scale_def draw_def Let_def f augment_strokes_def
        aug_init_def)
  have g: "get_sketches_from_indices ex_loader_aug (take (batch_size ex_loader_aug) [0, 1]) (\<lambda>n. 1 / 2) =
     Inl IndexError"
    by (simp add: get_sketches_from_indices_def f c split_beta)
  show ?thesis
    by (simp only: random_stroke_batch_def f(4) g Let_def sum.case prod.case simp_thms if_True)
qed


section \<open>slerp raises no domain error\<close>

lemma np_dot_cases:
  "np_dot ops a b = (if length a = length b then Inr (f_dot ops a b) else Inl ValueError)"
  by (simp add: np_dot_def)

text \<open>
  Claim C8, amended. \<open>slerp\<close> has no check of its own and raises no domain error: for
  every pair of vectors of one length, collinear or not, every \<open>t\<close> and whatever the
  float operations return, it returns a vector of that length. The only error is the
  ValueError of \<^verbatim>\<open>np.dot\<close> on vectors of different lengths.
\<close>

theorem slerp_raises_no_domain_error:
  "(length p0 = length p1 \<longrightarrow> (\<exists>v. slerp ops p0 p1 t = Inr v \<and> length v = length p0)) \<and>
   (length p0 \<noteq> length p1 \<longrightarrow> slerp ops p0 p1 t = Inl ValueError)"
  by (simp add: slerp_def np_dot_cases Let_def)

lemma ex_slerp:
  "slerp exact_ops [Finite 1, Finite 0] [Finite 1, Finite 0] (Finite (1 / 2)) = Inr [NaN, NaN]"
  by (simp add: slerp_def np_dot_cases exact_ops_def np_sub_def Let_def)

theorem slerp_raises_no_domain_error_witness:
  "(\<exists>v. slerp exact_ops [Finite 1, Finite 0] [Finite 1, Finite 0] (Finite (1 / 2)) = Inr v \<and>
        length v = 2) \<and>
   slerp exact_ops [Finite 1] [Finite 1, Finite 0] (Finite (1 / 2)) = Inl ValueError"
proof -
  note t = slerp_raises_no_domain_error
  have a: "\<exists>v. slerp exact_ops [Finite 1, Finite 0] [Finite 1, Finite 0] (Finite (1 / 2)) = Inr v \<and>
        length v = 2"
    using t [of "[Finite 1, Finite 0]" "[Finite 1, Finite 0]" exact_ops "Finite (1 / 2)",
        THEN conjunct1]
    by (simp add: numeral_2_eq_2)
  have b: "slerp exact_ops [Finite 1] [Finite 1, Finite 0] (Finite (1 / 2)) = Inl ValueError"
    using t [of "[Finite 1]" "[Finite 1, Finite 0]" exact_ops "Finite (1 / 2)", THEN conjunct2]
    by simp
  show ?thesis by (intro conjI a b)
qed

text \<open>
  Claim C8 as stated says that \<open>slerp\<close> raises a domain error on collinear vectors. On
  \<open>p0 = p1 = (1, 0)\<close> with \<open>t = 1/2\<close> both norms are 1, the dot product is 1, \<open>omega\<close> and
  \<open>sin omega\<close> are 0, both coefficients are \<open>0 / 0\<close>, and the vector \<open>(NaN, NaN)\<close> is
  returned: no error is raised.
\<close>

theorem slerp_collinear_no_error_counterexample:
  "slerp exact_ops [Finite 1, Finite 0] [Finite 1, Finite 0] (Finite (1 / 2)) = Inr [NaN, NaN] \<and>
   \<not> isl (slerp exact_ops [Finite 1, Finite 0] [Finite 1, Finite 0] (Finite (1 / 2)))"
  by (simp add: ex_slerp)

end
